theory Spec2Isabelle
  imports Complex_Main "HOL-Library.AList"
begin

section \<open>The pipeline state of PipelineView.js\<close>

text \<open>
  The view keeps the pipeline in \<^verbatim>\<open>this.state.steps\<close>, a JavaScript object from step uuid
  to step object. An object is modelled by the list of its own properties in enumeration
  order (the order of \<^verbatim>\<open>for (key in steps)\<close> and of \<^verbatim>\<open>Object.keys\<close>): reading
  \<^verbatim>\<open>steps[k]\<close> is \<open>map_of\<close>, writing \<^verbatim>\<open>steps[k] = v\<close> is \<open>AList.update\<close> (in place for an
  existing key, appended for a new one, as for keys that are not array indices), and
  \<^verbatim>\<open>delete steps[k]\<close> is \<open>AList.delete\<close>. A list stands for an object when its keys are
  distinct.

  Values read from \<^verbatim>\<open>pipeline.json\<close> are JSON values. The step fields follow the object
  built in \<^verbatim>\<open>newStep\<close>; \<^verbatim>\<open>outgoing_connections\<close> is absent (\<open>None\<close>) until
  \<^verbatim>\<open>willCreateCycle\<close> creates it.
\<close>

datatype jvalue =
    JNull
  | JBool bool
  | JNum real
  | JStr string
  | JArr "jvalue list"
  | JObj "(string \<times> jvalue) list"

record step =
  uuid :: string
  title :: string
  file_path :: string
  incoming_connections :: "string list"
  outgoing_connections :: "string list option"
  kernel :: "(string \<times> jvalue) list"
  environment :: string
  parameters :: "(string \<times> jvalue) list"
  meta_data :: "(string \<times> jvalue) list"

type_synonym steps = "(string \<times> step) list"

text \<open>
  A JavaScript exception leaves the mutations made before it in place, so the result of an
  operation on the steps is either a returned value or a thrown error, each with the
  steps as they are at that moment.
\<close>

datatype js_error = TypeError | SyntaxError

datatype 'a outcome = Return 'a steps | Throw js_error steps

subsection \<open>Arrays and sets\<close>

text \<open>\<^verbatim>\<open>xs.indexOf(x)\<close>; \<open>None\<close> is the result \<^verbatim>\<open>-1\<close>.\<close>

fun indexOf :: "'a list \<Rightarrow> 'a \<Rightarrow> nat option" where
  "indexOf [] x = None"
| "indexOf (y # ys) x = (if y = x then Some 0 else map_option Suc (indexOf ys x))"

text \<open>\<^verbatim>\<open>xs.splice(i, 1)\<close>: removes the element at index \<open>i\<close>, if there is one.\<close>

definition splice1 :: "nat \<Rightarrow> 'a list \<Rightarrow> 'a list" where
  "splice1 i xs = take i xs @ drop (Suc i) xs"

text \<open>
  A JavaScript \<^verbatim>\<open>Set\<close> iterates in insertion order: it is the list of its elements in that
  order. \<^verbatim>\<open>s.delete(x)\<close> and \<^verbatim>\<open>s.add(x)\<close>:
\<close>

definition set_delete :: "'a \<Rightarrow> 'a list \<Rightarrow> 'a list" where
  "set_delete x xs = removeAll x xs"

definition set_add :: "'a \<Rightarrow> 'a list \<Rightarrow> 'a list" where
  "set_add x xs = (if x \<in> set xs then xs else xs @ [x])"

section \<open>Cycle detection\<close>

subsection \<open>dfsWithSets\<close>

text \<open>
  \<^verbatim>\<open>dfsWithSets(step_uuid, whiteSet, greySet)\<close> moves the step from the white to the grey
  set and walks its \<^verbatim>\<open>outgoing_connections\<close>; \<open>dfs_children\<close> is its \<^verbatim>\<open>for\<close> loop over the
  children that are left. The function returns \<^verbatim>\<open>true\<close> from inside the loop, leaving the
  grey set as it is, and \<^verbatim>\<open>undefined\<close> (here \<open>False\<close>) after the loop, when the step has
  been taken out of the grey set. The two sets are passed on and returned. Reading a
  property of a missing step, or the length of a missing \<^verbatim>\<open>outgoing_connections\<close>, throws.
\<close>

type_synonym dfs_sets = "string list \<times> string list"

function dfsWithSets :: "steps \<Rightarrow> string \<Rightarrow> dfs_sets \<Rightarrow> js_error + (bool \<times> dfs_sets)"
  and dfs_children :: "steps \<Rightarrow> string \<Rightarrow> string list \<Rightarrow> dfs_sets \<Rightarrow> js_error + (bool \<times> dfs_sets)"
where
  "dfsWithSets S step_uuid (whiteSet, greySet) =
     (case map_of S step_uuid of
        None \<Rightarrow> Inl TypeError
      | Some st \<Rightarrow>
          (case outgoing_connections st of
             None \<Rightarrow> Inl TypeError
           | Some out \<Rightarrow>
               dfs_children S step_uuid out
                 (set_delete step_uuid whiteSet, set_add step_uuid greySet)))"
| "dfs_children S step_uuid [] (whiteSet, greySet) =
     Inr (False, whiteSet, set_delete step_uuid greySet)"
| "dfs_children S step_uuid (child_uuid # rest) (whiteSet, greySet) =
     (if child_uuid \<in> set whiteSet then
        (case dfsWithSets S child_uuid (whiteSet, greySet) of
           Inl e \<Rightarrow> Inl e
         | Inr (found, sets') \<Rightarrow>
             if found then Inr (True, sets') else dfs_children S step_uuid rest sets')
      else if child_uuid \<in> set greySet then Inr (True, whiteSet, greySet)
      else dfs_children S step_uuid rest (whiteSet, greySet))"
  by pat_completeness auto

text \<open>
  Termination: a call of \<open>dfsWithSets\<close> from the loop is on a child that is still white,
  and the call takes the child out of the white set; the white set never grows.
\<close>

lemma dfs_dom_white_shrinks:
  "dfsWithSets_dfs_children_dom (Inl (S, u, sets)) \<Longrightarrow>
     dfsWithSets S u sets = Inr (b, w', g') \<Longrightarrow> length w' \<le> length (set_delete u (fst sets))"
  "dfsWithSets_dfs_children_dom (Inr (S, u, cs, sets)) \<Longrightarrow>
     dfs_children S u cs sets = Inr (b, w', g') \<Longrightarrow> length w' \<le> length (fst sets)"
proof (induction S u sets and S u cs sets arbitrary: b w' g' and b w' g'
    rule: dfsWithSets_dfs_children.pinduct)
  case (1 S step_uuid whiteSet greySet)
  then show ?case
    by (auto simp: dfsWithSets.psimps split: option.splits)
next
  case (2 S step_uuid whiteSet greySet)
  then show ?case
    by (auto simp: dfs_children.psimps)
next
  case (3 S step_uuid child_uuid rest whiteSet greySet)
  show ?case
  proof (cases "child_uuid \<in> set whiteSet")
    case True
    then obtain f w1 g1 where call: "dfsWithSets S child_uuid (whiteSet, greySet) = Inr (f, w1, g1)"
      using "3.prems" "3.hyps" by (auto simp: dfs_children.psimps split: sum.splits)
    have le1: "length w1 \<le> length (set_delete child_uuid whiteSet)"
      using "3.IH"(1) [OF True call] by simp
    have le2: "length (set_delete child_uuid whiteSet) \<le> length whiteSet"
      by (simp add: set_delete_def removeAll_filter_not_eq)
    show ?thesis
    proof (cases f)
      case True
      with \<open>child_uuid \<in> set whiteSet\<close> call "3.prems" "3.hyps" le1 le2 show ?thesis
        by (auto simp: dfs_children.psimps)
    next
      case False
      with \<open>child_uuid \<in> set whiteSet\<close> call "3.prems" "3.hyps" have
        "dfs_children S step_uuid rest (w1, g1) = Inr (b, w', g')"
        by (auto simp: dfs_children.psimps)
      from "3.IH"(2) [OF \<open>child_uuid \<in> set whiteSet\<close> call refl False this] le1 le2
      show ?thesis by simp
    qed
  next
    case False
    with "3.prems" "3.hyps" "3.IH"(3) show ?thesis
      by (auto simp: dfs_children.psimps split: if_splits)
  qed
qed

termination dfsWithSets
proof (relation "inv_image (less_than <*lex*> less_than <*lex*> less_than)
    (\<lambda>x. case x of
        Inl (S, u, sets) \<Rightarrow> (length (set_delete u (fst sets)), 1::nat, 0::nat)
      | Inr (S, u, cs, sets) \<Rightarrow> (length (fst sets), 0, length cs))", goal_cases)
  case 1
  show ?case by (intro wf_inv_image wf_lex_prod wf_less_than)
next
  case (2 S step_uuid whiteSet greySet st out)
  show ?case by simp
next
  case (3 S step_uuid child_uuid rest whiteSet greySet)
  then have "length (removeAll child_uuid whiteSet) < length whiteSet"
    by (simp add: length_removeAll_less)
  then show ?case by (simp add: set_delete_def)
next
  case (4 S step_uuid child_uuid rest whiteSet greySet r found sets')
  obtain w1 g1 where sets': "sets' = (w1, g1)" by (cases sets')
  have "length w1 \<le> length (set_delete child_uuid whiteSet)"
    using dfs_dom_white_shrinks(1) [OF 4(5), of found w1 g1] 4(2,3) sets' by simp
  also have "\<dots> \<le> length whiteSet"
    by (simp add: set_delete_def removeAll_filter_not_eq)
  finally show ?case using sets' by auto
next
  case (5 S step_uuid child_uuid rest whiteSet greySet)
  show ?case by simp
qed

lemma dfs_white_shrinks:
  "dfsWithSets S u sets = Inr (b, w', g') \<Longrightarrow> length w' \<le> length (set_delete u (fst sets))"
  "dfs_children S u cs sets = Inr (b, w', g') \<Longrightarrow> length w' \<le> length (fst sets)"
proof (induction S u sets and S u cs sets arbitrary: b w' g' and b w' g'
    rule: dfsWithSets_dfs_children.induct)
  case (1 S step_uuid whiteSet greySet)
  then show ?case
    by (auto split: option.splits)
next
  case (2 S step_uuid whiteSet greySet)
  then show ?case
    by auto
next
  case (3 S step_uuid child_uuid rest whiteSet greySet)
  have le2: "length (set_delete child_uuid whiteSet) \<le> length whiteSet"
    by (simp add: set_delete_def removeAll_filter_not_eq)
  show ?case
  proof (cases "child_uuid \<in> set whiteSet")
    case True
    then obtain f w1 g1 where call: "dfsWithSets S child_uuid (whiteSet, greySet) = Inr (f, w1, g1)"
      using "3.prems" by (auto split: sum.splits)
    have le1: "length w1 \<le> length (set_delete child_uuid whiteSet)"
      using "3.IH"(1) [OF True call] by simp
    show ?thesis
    proof (cases f)
      case True
      with \<open>child_uuid \<in> set whiteSet\<close> call "3.prems" le1 le2 show ?thesis
        by auto
    next
      case False
      with \<open>child_uuid \<in> set whiteSet\<close> call "3.prems" have
        "dfs_children S step_uuid rest (w1, g1) = Inr (b, w', g')"
        by auto
      from "3.IH"(2) [OF \<open>child_uuid \<in> set whiteSet\<close> call refl False this] le1 le2
      show ?thesis by simp
    qed
  next
    case False
    with "3.prems" "3.IH"(3) show ?thesis
      by (auto split: if_splits)
  qed
qed

subsection \<open>willCreateCycle\<close>

text \<open>
  The \<^verbatim>\<open>while (whiteSet.size > 0)\<close> loop: it takes the first element left in the white
  set, runs \<open>dfsWithSets\<close> from it and remembers in \<^verbatim>\<open>cycles\<close> whether any run returned
  \<^verbatim>\<open>true\<close>. It goes on until the white set is empty, also after a cycle was found.
\<close>

function whileWhite :: "steps \<Rightarrow> dfs_sets \<Rightarrow> bool \<Rightarrow> js_error + bool" where
  "whileWhite S (whiteSet, greySet) cycles =
     (case whiteSet of
        [] \<Rightarrow> Inr cycles
      | step_uuid # _ \<Rightarrow>
          (case dfsWithSets S step_uuid (whiteSet, greySet) of
             Inl e \<Rightarrow> Inl e
           | Inr (found, sets') \<Rightarrow> whileWhite S sets' (if found then True else cycles)))"
  by pat_completeness auto
termination
proof (relation "measure (\<lambda>(S, sets, cycles). length (fst sets))", goal_cases)
  case 1
  show ?case by simp
next
  case (2 S whiteSet greySet cycles step_uuid us r found sets')
  obtain w1 g1 where sets': "sets' = (w1, g1)" by (cases sets')
  have "length w1 \<le> length (set_delete step_uuid whiteSet)"
    using dfs_white_shrinks(1) [of S step_uuid "(whiteSet, greySet)" found w1 g1] 2 sets'
    by simp
  also have "\<dots> < length whiteSet"
    using 2(1) by (simp add: set_delete_def removeAll_filter_not_eq less_Suc_eq_le)
  finally show ?case using sets' by simp
qed

text \<open>
  The first loop of \<^verbatim>\<open>willCreateCycle\<close> gives every step an empty
  \<^verbatim>\<open>outgoing_connections\<close>.
\<close>

definition reset_outgoing :: "steps \<Rightarrow> steps" where
  "reset_outgoing S = map (\<lambda>(step_uuid, st). (step_uuid, st\<lparr>outgoing_connections := Some []\<rparr>)) S"

text \<open>
  The second loop inverts the connections: for the step \<open>step_uuid\<close>, \<open>push_outgoing\<close> is
  the inner loop over its \<^verbatim>\<open>incoming_connections\<close>, which pushes \<open>step_uuid\<close> onto the
  \<^verbatim>\<open>outgoing_connections\<close> of each source; a source that is not a step throws, with the
  arrays built so far left in the steps.
\<close>

fun push_outgoing :: "string \<Rightarrow> string list \<Rightarrow> steps \<Rightarrow> unit outcome" where
  "push_outgoing step_uuid [] S = Return () S"
| "push_outgoing step_uuid (src # rest) S =
     (case map_of S src of
        None \<Rightarrow> Throw TypeError S
      | Some st \<Rightarrow>
          (case outgoing_connections st of
             None \<Rightarrow> Throw TypeError S
           | Some out \<Rightarrow>
               push_outgoing step_uuid rest
                 (AList.update src (st\<lparr>outgoing_connections := Some (out @ [step_uuid])\<rparr>) S)))"

fun build_outgoing :: "string list \<Rightarrow> steps \<Rightarrow> unit outcome" where
  "build_outgoing [] S = Return () S"
| "build_outgoing (step_uuid # keys) S =
     (case map_of S step_uuid of
        None \<Rightarrow> Throw TypeError S
      | Some st \<Rightarrow>
          (case push_outgoing step_uuid (incoming_connections st) S of
             Throw e S' \<Rightarrow> Throw e S'
           | Return _ S' \<Rightarrow> build_outgoing keys S'))"

text \<open>
  \<^verbatim>\<open>willCreateCycle(startNodeUUID, endNodeUUID)\<close>: pushes the connection onto the
  \<^verbatim>\<open>incoming_connections\<close> of the end node, rebuilds all \<^verbatim>\<open>outgoing_connections\<close>, runs
  the search from a white set of all keys and an empty grey set, and splices the
  connection out again at the index where it was pushed.
\<close>

definition willCreateCycle :: "steps \<Rightarrow> string \<Rightarrow> string \<Rightarrow> bool outcome" where
  "willCreateCycle S startNodeUUID endNodeUUID =
     (case map_of S endNodeUUID of
        None \<Rightarrow> Throw TypeError S
      | Some endStep \<Rightarrow>
          let insertIndex = length (incoming_connections endStep @ [startNodeUUID]) - 1;
              S1 = AList.update endNodeUUID
                     (endStep\<lparr>incoming_connections :=
                        incoming_connections endStep @ [startNodeUUID]\<rparr>) S;
              S2 = reset_outgoing S1
          in (case build_outgoing (map fst S2) S2 of
                Throw e S3 \<Rightarrow> Throw e S3
              | Return _ S3 \<Rightarrow>
                  (case whileWhite S3 (map fst S3, []) False of
                     Inl e \<Rightarrow> Throw e S3
                   | Inr cycles \<Rightarrow>
                       (case map_of S3 endNodeUUID of
                          None \<Rightarrow> Throw TypeError S3
                        | Some endStep' \<Rightarrow>
                            Return cycles
                              (AList.update endNodeUUID
                                 (endStep'\<lparr>incoming_connections :=
                                    splice1 insertIndex (incoming_connections endStep')\<rparr>)
                                 S3)))))"

section \<open>Connecting steps\<close>

text \<open>
  \<^verbatim>\<open>makeConnection\<close> pushes the source onto the target's \<^verbatim>\<open>incoming_connections\<close> unless
  it is there already; it makes no cycle check of its own.
\<close>

definition makeConnection :: "steps \<Rightarrow> string \<Rightarrow> string \<Rightarrow> unit outcome" where
  "makeConnection S sourcePipelineStepUUID targetPipelineStepUUID =
     (case map_of S targetPipelineStepUUID of
        None \<Rightarrow> Throw TypeError S
      | Some st \<Rightarrow>
          if indexOf (incoming_connections st) sourcePipelineStepUUID = None then
            Return ()
              (AList.update targetPipelineStepUUID
                 (st\<lparr>incoming_connections :=
                    incoming_connections st @ [sourcePipelineStepUUID]\<rparr>) S)
          else Return () S)"

text \<open>
  The connect operation of the editor is the \<^verbatim>\<open>mouseup\<close> handler installed by
  \<^verbatim>\<open>initializePipelineEditListeners\<close>, run when a connection is being dragged
  (\<^verbatim>\<open>this.newConnection\<close> is set). \<open>dragEnded\<close> is whether the drag was released on the
  incoming-connections element of a step. The handler reports through
  \<^verbatim>\<open>orchest.alert\<close>; its result here is the list of alerts raised and whether the
  connection was made (\<^verbatim>\<open>onConnect\<close>, bound to \<^verbatim>\<open>makeConnection\<close>, was called).
  The step that the handler reads through the component of the end node
  (\<^verbatim>\<open>props.step\<close>) is the step object of the state.
  What the handler does to the DOM wrapper of the connection being dragged changes no
  step and is left out.
\<close>

definition cycle_alert :: string where
  "cycle_alert =
     ''Connecting this step will create a cycle in your pipeline which is not supported.''"

definition duplicate_alert :: string where
  "duplicate_alert =
     ''These steps are already connected. No new connection has been created.''"

datatype mouseup = MouseUp (alerts: "string list") (connected: bool)

definition mouseup_newConnection :: "steps \<Rightarrow> bool \<Rightarrow> string \<Rightarrow> string \<Rightarrow> mouseup outcome" where
  "mouseup_newConnection S dragEnded startNodeUUID endNodeUUID =
     (case (if dragEnded then
              (case map_of S endNodeUUID of
                 None \<Rightarrow> Inl TypeError
               | Some st \<Rightarrow> Inr (indexOf (incoming_connections st) startNodeUUID = None))
            else Inr True) of
        Inl e \<Rightarrow> Throw e S
      | Inr noConnectionExists \<Rightarrow>
          (case (if noConnectionExists \<and> dragEnded
                 then willCreateCycle S startNodeUUID endNodeUUID
                 else Return False S) of
             Throw e S' \<Rightarrow> Throw e S'
           | Return connectionCreatesCycle S' \<Rightarrow>
               let cycleAlerts = (if connectionCreatesCycle then [cycle_alert] else [])
               in if dragEnded \<and> noConnectionExists \<and> \<not> connectionCreatesCycle then
                    (case makeConnection S' startNodeUUID endNodeUUID of
                       Throw e S'' \<Rightarrow> Throw e S''
                     | Return _ S'' \<Rightarrow> Return (MouseUp cycleAlerts True) S'')
                  else
                    Return
                      (MouseUp
                         (cycleAlerts @ (if \<not> noConnectionExists then [duplicate_alert] else []))
                         False)
                      S'))"

definition connect :: "steps \<Rightarrow> string \<Rightarrow> string \<Rightarrow> mouseup outcome" where
  "connect S sourceUuid targetUuid = mouseup_newConnection S True sourceUuid targetUuid"

text \<open>
  A sequence of connect operations all of which succeed: each returns without an alert
  and with the connection made. \<open>None\<close> when one of them does not.
\<close>

fun connect_all :: "steps \<Rightarrow> (string \<times> string) list \<Rightarrow> steps option" where
  "connect_all S [] = Some S"
| "connect_all S ((sourceUuid, targetUuid) # rest) =
     (case connect S sourceUuid targetUuid of
        Return r S' \<Rightarrow> if connected r then connect_all S' rest else None
      | Throw e S' \<Rightarrow> None)"

section \<open>Deleting a step\<close>

text \<open>
  \<^verbatim>\<open>deleteStep\<close> also works on \<^verbatim>\<open>this.connections\<close>, the array of the
  \<^verbatim>\<open>ConnectionDOMWrapper\<close> objects that draw the connections. Of a wrapper the model
  keeps the two uuids it reads from the DOM (\<^verbatim>\<open>startNodeUUID\<close>, \<^verbatim>\<open>endNodeUUID\<close>;
  \<open>None\<close> when not set); its \<^verbatim>\<open>remove()\<close> only takes its element out of the page.
\<close>

datatype connection = ConnectionDOMWrapper (startUUID: "string option") (endUUID: "string option")

text \<open>
  \<^verbatim>\<open>getConnectionByUUIDs\<close> returns the first wrapper with the two uuids, or
  \<^verbatim>\<open>undefined\<close> (\<open>None\<close>).
\<close>

fun getConnectionByUUIDs :: "connection list \<Rightarrow> string \<Rightarrow> string \<Rightarrow> connection option" where
  "getConnectionByUUIDs [] startNodeUUID endNodeUUID = None"
| "getConnectionByUUIDs (c # connections) startNodeUUID endNodeUUID =
     (if startUUID c = Some startNodeUUID \<and> endUUID c = Some endNodeUUID then Some c
      else getConnectionByUUIDs connections startNodeUUID endNodeUUID)"

text \<open>
  \<^verbatim>\<open>this.connections.splice(this.connections.indexOf(connection), 1)\<close>: for
  \<^verbatim>\<open>undefined\<close>, or a wrapper that is not in the array, \<^verbatim>\<open>indexOf\<close> is \<^verbatim>\<open>-1\<close>, and
  \<^verbatim>\<open>splice(-1, 1)\<close> removes the last element. Wrappers with the same two uuids are
  one value here, and objects of their own in the code; as \<^verbatim>\<open>getConnectionByUUIDs\<close>
  returns the first wrapper with its uuids, \<^verbatim>\<open>indexOf\<close> finds it at the same index
  in both readings.
\<close>

definition splice_indexOf :: "connection list \<Rightarrow> connection option \<Rightarrow> connection list" where
  "splice_indexOf connections connection =
     (case connection of
        None \<Rightarrow> butlast connections
      | Some c \<Rightarrow>
          (case indexOf connections c of
             None \<Rightarrow> butlast connections
           | Some i \<Rightarrow> splice1 i connections))"

text \<open>
  What the first loop of \<^verbatim>\<open>deleteStep\<close> does to a step that lists the uuid: it splices
  the first occurrence out of the \<^verbatim>\<open>incoming_connections\<close>.
\<close>

definition strip_connection :: "string \<Rightarrow> step \<Rightarrow> step" where
  "strip_connection uuid' st =
     (case indexOf (incoming_connections st) uuid' of
        None \<Rightarrow> st
      | Some connectionIndex \<Rightarrow>
          st\<lparr>incoming_connections := splice1 connectionIndex (incoming_connections st)\<rparr>)"

text \<open>
  The first loop of \<^verbatim>\<open>deleteStep(uuid)\<close> visits the steps by key. In a step that lists
  \<open>uuid\<close> it splices the connection out, looks up the wrapper from \<open>uuid\<close> to the
  step's own uuid, splices the wrapper out of \<^verbatim>\<open>this.connections\<close> and calls its
  \<^verbatim>\<open>remove()\<close>, which throws when no wrapper was found: then the step has lost the
  connection, the array has lost its last wrapper, and the loop is left.
\<close>

fun cascade_loop ::
    "string \<Rightarrow> string list \<Rightarrow> steps \<Rightarrow> connection list \<Rightarrow> unit outcome \<times> connection list" where
  "cascade_loop uuid' [] S connections = (Return () S, connections)"
| "cascade_loop uuid' (key # keys) S connections =
     (case map_of S key of
        None \<Rightarrow> (Throw TypeError S, connections)
      | Some st \<Rightarrow>
          (case indexOf (incoming_connections st) uuid' of
             None \<Rightarrow> cascade_loop uuid' keys S connections
           | Some connectionIndex \<Rightarrow>
               let S' = AList.update key
                          (st\<lparr>incoming_connections :=
                             splice1 connectionIndex (incoming_connections st)\<rparr>) S;
                   connection = getConnectionByUUIDs connections uuid' (uuid st);
                   connections' = splice_indexOf connections connection
               in (case connection of
                     None \<Rightarrow> (Throw TypeError S', connections')
                   | Some c \<Rightarrow> cascade_loop uuid' keys S' connections')))"

text \<open>
  The second loop goes through the \<^verbatim>\<open>incoming_connections\<close> of the step to delete and
  removes the wrapper of each; it changes no step, and throws when a wrapper is missing.
\<close>

fun incoming_wrappers_loop ::
    "string \<Rightarrow> string list \<Rightarrow> connection list \<Rightarrow> js_error option \<times> connection list" where
  "incoming_wrappers_loop uuid' [] connections = (None, connections)"
| "incoming_wrappers_loop uuid' (src # rest) connections =
     (let connection = getConnectionByUUIDs connections src uuid';
          connections' = splice_indexOf connections connection
      in (case connection of
            None \<Rightarrow> (Some TypeError, connections')
          | Some c \<Rightarrow> incoming_wrappers_loop uuid' rest connections'))"

text \<open>
  \<^verbatim>\<open>deleteStep(uuid)\<close>: the first loop; then it reads the \<^verbatim>\<open>incoming_connections\<close> of
  the step to delete, which throws when there is no such step; the second loop; at the
  end it deletes the step. The result is the outcome on the steps and the array of
  wrappers that is left.
\<close>

definition deleteStep :: "steps \<Rightarrow> connection list \<Rightarrow> string \<Rightarrow> unit outcome \<times> connection list" where
  "deleteStep S connections uuid' =
     (case cascade_loop uuid' (map fst S) S connections of
        (Throw e S1, connections1) \<Rightarrow> (Throw e S1, connections1)
      | (Return _ S1, connections1) \<Rightarrow>
          (case map_of S1 uuid' of
             None \<Rightarrow> (Throw TypeError S1, connections1)
           | Some st \<Rightarrow>
               (case incoming_wrappers_loop uuid' (incoming_connections st) connections1 of
                  (Some e, connections2) \<Rightarrow> (Throw e S1, connections2)
                | (None, connections2) \<Rightarrow>
                    (Return () (AList.delete uuid' S1), connections2))))"

section \<open>The pipeline document\<close>

text \<open>
  \<^verbatim>\<open>pipeline.json\<close>: the steps keyed by uuid, and the other top-level properties.
  The view state holds the steps and the document last loaded (\<^verbatim>\<open>undefined\<close>, here
  \<open>None\<close>, before \<^verbatim>\<open>decodeJSON\<close> has run).
\<close>

record pipeline_json =
  pj_steps :: steps
  pj_properties :: "(string \<times> jvalue) list"

record pipeline_view =
  state_steps :: steps
  state_pipelineJson :: "pipeline_json option"

definition initial_view :: pipeline_view where
  "initial_view = \<lparr>state_steps = [], state_pipelineJson = None\<rparr>"

subsection \<open>validatePipelineJSON\<close>

record pipelineValidation =
  valid :: bool
  errors :: "string list"

definition notebook_error :: "step \<Rightarrow> step \<Rightarrow> string" where
  "notebook_error st otherStep =
     ''Pipeline step '' @ [CHR 0x22] @ title st @ [CHR 0x22] @ '' ('' @ uuid st @
     '') has the same Notebook assigned as pipeline step '' @ [CHR 0x22] @ title otherStep @
     [CHR 0x22] @ '' ('' @ uuid otherStep @
     ''). Assigning the same Notebook file to multiple steps is not supported. '' @
     ''Please convert to a script to re-use file across pipeline steps.''"

text \<open>
  The inner loop looks, among all steps, for the first one with another uuid and the same
  \<^verbatim>\<open>file_path\<close>; the outer loop does so for every step whose file has the extension
  \<^verbatim>\<open>ipynb\<close> and leaves both loops (\<^verbatim>\<open>break outerLoop\<close>) at the first one found.
  \<^verbatim>\<open>extensionFromFilename\<close> is imported from \<^verbatim>\<open>lib/utils/all\<close>, which is not part of
  the sources at hand: it is a parameter.
\<close>

fun otherStep_loop :: "step \<Rightarrow> steps \<Rightarrow> step option" where
  "otherStep_loop st [] = None"
| "otherStep_loop st ((otherStepKey, otherStep) # rest) =
     (if uuid st = uuid otherStep then otherStep_loop st rest
      else if file_path otherStep = file_path st then Some otherStep
      else otherStep_loop st rest)"

fun outerLoop :: "(string \<Rightarrow> string) \<Rightarrow> steps \<Rightarrow> steps \<Rightarrow> pipelineValidation" where
  "outerLoop extensionFromFilename all_steps [] = \<lparr>valid = True, errors = []\<rparr>"
| "outerLoop extensionFromFilename all_steps ((stepKey, st) # rest) =
     (if extensionFromFilename (file_path st) = ''ipynb'' then
        (case otherStep_loop st all_steps of
           Some otherStep \<Rightarrow> \<lparr>valid = False, errors = [] @ [notebook_error st otherStep]\<rparr>
         | None \<Rightarrow> outerLoop extensionFromFilename all_steps rest)
      else outerLoop extensionFromFilename all_steps rest)"

definition validatePipelineJSON :: "(string \<Rightarrow> string) \<Rightarrow> pipeline_json \<Rightarrow> pipelineValidation" where
  "validatePipelineJSON extensionFromFilename pipelineJSON =
     outerLoop extensionFromFilename (pj_steps pipelineJSON) (pj_steps pipelineJSON)"

subsection \<open>encodeJSON and decodeJSON\<close>

text \<open>
  \<^verbatim>\<open>encodeJSON\<close> copies the loaded document (\<^verbatim>\<open>JSON.parse(JSON.stringify(...))\<close>, which
  throws a \<^verbatim>\<open>SyntaxError\<close> on \<^verbatim>\<open>undefined\<close>; the copy of a JSON value is the value),
  empties its steps, and stores under its uuid a copy of every step of the state, from
  which it has deleted the \<^verbatim>\<open>meta_data\<close> keys that start with an underscore and the
  \<^verbatim>\<open>outgoing_connections\<close> (an array, also an empty one, is truthy).
\<close>

definition is_private :: "string \<Rightarrow> bool" where
  "is_private key = (case key of [] \<Rightarrow> False | c # _ \<Rightarrow> c = CHR ''_'')"

definition remove_private :: "(string \<times> jvalue) list \<Rightarrow> (string \<times> jvalue) list" where
  "remove_private md =
     fold (\<lambda>key md'. if is_private key then AList.delete key md' else md') (map fst md) md"

definition encode_step :: "step \<Rightarrow> step" where
  "encode_step st =
     st\<lparr>meta_data := remove_private (meta_data st),
        outgoing_connections :=
          (case outgoing_connections st of None \<Rightarrow> None | Some out \<Rightarrow> None)\<rparr>"

fun encode_steps :: "steps \<Rightarrow> steps \<Rightarrow> steps" where
  "encode_steps [] pipelineJSON_steps = pipelineJSON_steps"
| "encode_steps ((key, st) # rest) pipelineJSON_steps =
     encode_steps rest (AList.update (uuid (encode_step st)) (encode_step st) pipelineJSON_steps)"

definition encodeJSON :: "pipeline_view \<Rightarrow> js_error + pipeline_json" where
  "encodeJSON v =
     (case state_pipelineJson v of
        None \<Rightarrow> Inl SyntaxError
      | Some pipelineJSON \<Rightarrow> Inr (pipelineJSON\<lparr>pj_steps := encode_steps (state_steps v) []\<rparr>))"

text \<open>
  \<^verbatim>\<open>decodeJSON\<close> stores every step of the document in the steps of the state under the
  document's key and sets the two runtime entries of its \<^verbatim>\<open>meta_data\<close>. The step
  objects are shared with the document, which is kept in the state.
\<close>

definition init_runtime :: "step \<Rightarrow> step" where
  "init_runtime st =
     st\<lparr>meta_data :=
          AList.update ''_dragged'' (JBool False)
            (AList.update ''_drag_count'' (JNum 0) (meta_data st))\<rparr>"

fun decode_steps :: "steps \<Rightarrow> steps \<Rightarrow> steps" where
  "decode_steps [] steps = steps"
| "decode_steps ((key, st) # rest) steps =
     decode_steps rest (AList.update key (init_runtime st) steps)"

definition decodeJSON :: "pipeline_view \<Rightarrow> pipeline_json \<Rightarrow> pipeline_view" where
  "decodeJSON v pipelineJson =
     \<lparr>state_steps = decode_steps (pj_steps pipelineJson) (state_steps v),
      state_pipelineJson =
        Some (pipelineJson\<lparr>pj_steps :=
                map (\<lambda>(key, st). (key, init_runtime st)) (pj_steps pipelineJson)\<rparr>)\<rparr>"

section \<open>Properties of a graph\<close>

text \<open>
  The connections of the steps, as pairs of source and target: a step is reached from the
  steps in its \<^verbatim>\<open>incoming_connections\<close>. The graph is acyclic when no step reaches itself
  along them.
\<close>

definition edges :: "steps \<Rightarrow> (string \<times> string) set" where
  "edges S = set (concat (map (\<lambda>(key, st). map (\<lambda>src. (src, key)) (incoming_connections st)) S))"

text \<open>
  A graph is well-formed when its keys are distinct (it is an object) and every uuid in an
  \<^verbatim>\<open>incoming_connections\<close> is the key of a step.
\<close>

definition wf_graph :: "steps \<Rightarrow> bool" where
  "wf_graph S \<longleftrightarrow>
     distinct (map fst S) \<and>
     (\<forall>(key, st) \<in> set S. set (incoming_connections st) \<subseteq> set (map fst S))"

text \<open>The steps are stored under their own uuid.\<close>

definition keyed_by_uuid :: "steps \<Rightarrow> bool" where
  "keyed_by_uuid S \<longleftrightarrow> (\<forall>(key, st) \<in> set S. uuid st = key)"


text \<open>The steps without the derived \<^verbatim>\<open>outgoing_connections\<close>.\<close>

definition forget_outgoing :: "steps \<Rightarrow> steps" where
  "forget_outgoing S = map (\<lambda>(key, st). (key, st\<lparr>outgoing_connections := None\<rparr>)) S"

text \<open>
  No step lists \<open>u\<close> among its \<^verbatim>\<open>incoming_connections\<close>.
\<close>

definition unreferenced :: "steps \<Rightarrow> string \<Rightarrow> bool" where
  "unreferenced S u \<longleftrightarrow> (\<forall>(key, st) \<in> set S. u \<notin> set (incoming_connections st))"



text \<open>
  Two steps of the document share a notebook: the file of the first has the extension
  \<^verbatim>\<open>ipynb\<close>, the second has another uuid and the same \<^verbatim>\<open>file_path\<close>.
\<close>

definition shares_notebook :: "(string \<Rightarrow> string) \<Rightarrow> steps \<Rightarrow> step \<Rightarrow> step \<Rightarrow> bool" where
  "shares_notebook ext S st other \<longleftrightarrow>
     st \<in> snd ` set S \<and> other \<in> snd ` set S \<and> ext (file_path st) = ''ipynb'' \<and>
     uuid st \<noteq> uuid other \<and> file_path other = file_path st"

subsection \<open>The search, seen as a graph search\<close>

text \<open>
  The relation the search walks: from a step to the steps in its
  \<^verbatim>\<open>outgoing_connections\<close>. \<open>outgoing_ok\<close> says that every step has such an array and
  that it holds keys only, which is the state \<^verbatim>\<open>willCreateCycle\<close> builds before it
  searches. \<open>incoming_rel\<close> is the relation of the \<^verbatim>\<open>incoming_connections\<close> as read by
  key.
\<close>

definition outgoing_rel :: "steps \<Rightarrow> (string \<times> string) set" where
  "outgoing_rel S =
     {(u, c). \<exists>st out. map_of S u = Some st \<and> outgoing_connections st = Some out \<and> c \<in> set out}"

definition outgoing_ok :: "steps \<Rightarrow> bool" where
  "outgoing_ok S \<longleftrightarrow>
     (\<forall>u st. map_of S u = Some st \<longrightarrow>
        (\<exists>out. outgoing_connections st = Some out \<and> set out \<subseteq> fst ` set S))"

definition incoming_rel :: "steps \<Rightarrow> (string \<times> string) set" where
  "incoming_rel S =
     {(src, key). \<exists>st. map_of S key = Some st \<and> src \<in> set (incoming_connections st)}"

definition has_outgoing :: "steps \<Rightarrow> bool" where
  "has_outgoing S \<longleftrightarrow> (\<forall>key st. map_of S key = Some st \<longrightarrow> outgoing_connections st \<noteq> None)"

text \<open>
  The steps that are neither white nor grey are black. The invariant of the search, as
  long as no call has returned \<^verbatim>\<open>true\<close>: the black steps are closed under the
  outgoing connections, and none of them lies on a cycle.
\<close>

definition black :: "steps \<Rightarrow> string list \<Rightarrow> string list \<Rightarrow> string set" where
  "black S w g = fst ` set S - set w - set g"

definition dfs_inv :: "steps \<Rightarrow> string list \<Rightarrow> string list \<Rightarrow> bool" where
  "dfs_inv S w g \<longleftrightarrow>
     (\<forall>b \<in> black S w g. \<forall>c. (b, c) \<in> outgoing_rel S \<longrightarrow> c \<in> black S w g) \<and>
     (\<forall>b \<in> black S w g. (b, b) \<notin> (outgoing_rel S)\<^sup>+)"

subsection \<open>Counting the calls of dfsWithSets\<close>

text \<open>
  The calls of \<^verbatim>\<open>dfsWithSets\<close> that one call makes, itself included. The functions
  follow the recursion of \<open>dfsWithSets\<close>, of its loop, of the \<^verbatim>\<open>while\<close> loop and of
  \<^verbatim>\<open>willCreateCycle\<close>; \<open>combine\<close> says how the calls made one after the other add up:
  with addition the result is the number of calls, with the maximum it is the depth of
  the recursion.
\<close>

function dfsWithSets_frames :: "(nat \<Rightarrow> nat \<Rightarrow> nat) \<Rightarrow> steps \<Rightarrow> string \<Rightarrow> dfs_sets \<Rightarrow> nat"
  and dfs_children_frames ::
    "(nat \<Rightarrow> nat \<Rightarrow> nat) \<Rightarrow> steps \<Rightarrow> string \<Rightarrow> string list \<Rightarrow> dfs_sets \<Rightarrow> nat"
where
  "dfsWithSets_frames combine S step_uuid (whiteSet, greySet) =
     1 + (case map_of S step_uuid of
            None \<Rightarrow> 0
          | Some st \<Rightarrow>
              (case outgoing_connections st of
                 None \<Rightarrow> 0
               | Some out \<Rightarrow>
                   dfs_children_frames combine S step_uuid out
                     (set_delete step_uuid whiteSet, set_add step_uuid greySet)))"
| "dfs_children_frames combine S step_uuid [] (whiteSet, greySet) = 0"
| "dfs_children_frames combine S step_uuid (child_uuid # rest) (whiteSet, greySet) =
     (if child_uuid \<in> set whiteSet then
        combine (dfsWithSets_frames combine S child_uuid (whiteSet, greySet))
          (case dfsWithSets S child_uuid (whiteSet, greySet) of
             Inl e \<Rightarrow> 0
           | Inr (found, sets') \<Rightarrow>
               if found then 0 else dfs_children_frames combine S step_uuid rest sets')
      else if child_uuid \<in> set greySet then 0
      else dfs_children_frames combine S step_uuid rest (whiteSet, greySet))"
  by pat_completeness auto
termination
proof (relation "inv_image (less_than <*lex*> less_than <*lex*> less_than)
    (\<lambda>x. case x of
        Inl (c, S, u, sets) \<Rightarrow> (length (set_delete u (fst sets)), 1::nat, 0::nat)
      | Inr (c, S, u, cs, sets) \<Rightarrow> (length (fst sets), 0, length cs))", goal_cases)
  case 1
  show ?case by (intro wf_inv_image wf_lex_prod wf_less_than)
next
  case (2 combine S step_uuid whiteSet greySet st out)
  show ?case by simp
next
  case (3 combine S step_uuid child_uuid rest whiteSet greySet)
  then have "length (removeAll child_uuid whiteSet) < length whiteSet"
    by (simp add: length_removeAll_less)
  then show ?case by (simp add: set_delete_def)
next
  case (4 combine S step_uuid child_uuid rest whiteSet greySet r found sets')
  obtain w1 g1 where sets': "sets' = (w1, g1)" by (cases sets')
  have "length w1 \<le> length (set_delete child_uuid whiteSet)"
    using dfs_white_shrinks(1) [of S child_uuid "(whiteSet, greySet)" found w1 g1] 4 sets'
    by simp
  also have "\<dots> \<le> length whiteSet"
    by (simp add: set_delete_def removeAll_filter_not_eq)
  finally show ?case using sets' by auto
next
  case (5 combine S step_uuid child_uuid rest whiteSet greySet)
  show ?case by simp
qed

function whileWhite_frames :: "(nat \<Rightarrow> nat \<Rightarrow> nat) \<Rightarrow> steps \<Rightarrow> dfs_sets \<Rightarrow> nat" where
  "whileWhite_frames combine S (whiteSet, greySet) =
     (case whiteSet of
        [] \<Rightarrow> 0
      | step_uuid # _ \<Rightarrow>
          combine (dfsWithSets_frames combine S step_uuid (whiteSet, greySet))
            (case dfsWithSets S step_uuid (whiteSet, greySet) of
               Inl e \<Rightarrow> 0
             | Inr (found, sets') \<Rightarrow> whileWhite_frames combine S sets'))"
  by pat_completeness auto
termination
proof (relation "measure (\<lambda>(c, S, sets). length (fst sets))", goal_cases)
  case 1
  show ?case by simp
next
  case (2 combine S whiteSet greySet step_uuid us r found sets')
  obtain w1 g1 where sets': "sets' = (w1, g1)" by (cases sets')
  have "length w1 \<le> length (set_delete step_uuid whiteSet)"
    using dfs_white_shrinks(1) [of S step_uuid "(whiteSet, greySet)" found w1 g1] 2 sets'
    by simp
  also have "\<dots> < length whiteSet"
    using 2(1) by (simp add: set_delete_def removeAll_filter_not_eq less_Suc_eq_le)
  finally show ?case using sets' by simp
qed

definition willCreateCycle_frames ::
    "(nat \<Rightarrow> nat \<Rightarrow> nat) \<Rightarrow> steps \<Rightarrow> string \<Rightarrow> string \<Rightarrow> nat" where
  "willCreateCycle_frames combine S startNodeUUID endNodeUUID =
     (case map_of S endNodeUUID of
        None \<Rightarrow> 0
      | Some endStep \<Rightarrow>
          let S1 = AList.update endNodeUUID
                     (endStep\<lparr>incoming_connections :=
                        incoming_connections endStep @ [startNodeUUID]\<rparr>) S;
              S2 = reset_outgoing S1
          in (case build_outgoing (map fst S2) S2 of
                Throw e S3 \<Rightarrow> 0
              | Return _ S3 \<Rightarrow> whileWhite_frames combine S3 (map fst S3, [])))"

definition willCreateCycle_calls :: "steps \<Rightarrow> string \<Rightarrow> string \<Rightarrow> nat" where
  "willCreateCycle_calls = willCreateCycle_frames (+)"

definition willCreateCycle_depth :: "steps \<Rightarrow> string \<Rightarrow> string \<Rightarrow> nat" where
  "willCreateCycle_depth = willCreateCycle_frames max"

text \<open>What a call leaves in the white set; nothing is left to do after an exception.\<close>

definition white_left :: "js_error + (bool \<times> dfs_sets) \<Rightarrow> nat" where
  "white_left r = (case r of Inl e \<Rightarrow> 0 | Inr (found, sets') \<Rightarrow> length (fst sets'))"

declare dfsWithSets.simps [simp del]

declare whileWhite.simps [simp del]

declare dfsWithSets_frames.simps [simp del]

declare whileWhite_frames.simps [simp del]

section \<open>Example pipelines\<close>

text \<open>
  A step as \<^verbatim>\<open>newStep\<close> creates it, with a uuid, a file and connections given.
\<close>

definition example_step :: "string \<Rightarrow> string \<Rightarrow> string list \<Rightarrow> step" where
  "example_step u path incoming =
     \<lparr>uuid = u, title = '''', file_path = path, incoming_connections = incoming,
      outgoing_connections = None,
      kernel = [(''name'', JStr ''python''), (''display_name'', JStr '''')],
      environment = '''', parameters = [],
      meta_data = [(''position'', JArr [JNum 0, JNum 0]), (''_dragged'', JBool False),
                   (''_drag_count'', JNum 0), (''hidden'', JBool True)]\<rparr>"

text \<open>Three steps without connections, and the chain A \<rightarrow> B \<rightarrow> C.\<close>

definition three_steps :: steps where
  "three_steps =
     [(''A'', example_step ''A'' ''a.py'' []),
      (''B'', example_step ''B'' ''b.py'' []),
      (''C'', example_step ''C'' ''c.py'' [])]"

definition chain_ABC :: steps where
  "chain_ABC =
     [(''A'', example_step ''A'' ''a.py'' []),
      (''B'', example_step ''B'' ''b.py'' [''A'']),
      (''C'', example_step ''C'' ''c.py'' [''B''])]"

text \<open>The wrappers of the two connections of the chain.\<close>

definition chain_ABC_connections :: "connection list" where
  "chain_ABC_connections =
     [ConnectionDOMWrapper (Some ''A'') (Some ''B''),
      ConnectionDOMWrapper (Some ''B'') (Some ''C'')]"

text \<open>
  Two components: \<open>P\<close> alone, enumerated first, and A \<rightarrow> B. The second list is the first
  after \<^verbatim>\<open>willCreateCycle\<close> has been asked about the connection from \<open>B\<close> to
  \<open>A\<close>.
\<close>

definition two_components :: steps where
  "two_components =
     [(''P'', example_step ''P'' ''p.py'' []),
      (''A'', example_step ''A'' ''a.py'' []),
      (''B'', example_step ''B'' ''b.py'' [''A''])]"

definition two_components_checked :: steps where
  "two_components_checked =
     [(''P'', (example_step ''P'' ''p.py'' [])\<lparr>outgoing_connections := Some []\<rparr>),
      (''A'', (example_step ''A'' ''a.py'' [])\<lparr>outgoing_connections := Some [''B'']\<rparr>),
      (''B'', (example_step ''B'' ''b.py'' [''A''])\<lparr>outgoing_connections := Some [''A'']\<rparr>)]"

text \<open>
  Two steps that list a uuid \<open>U\<close> which is not a step, with the wrapper of the one
  connection between steps; and a step \<open>B\<close> that lists a uuid \<open>D\<close> which is not a step.
\<close>

definition dangling_U :: steps where
  "dangling_U =
     [(''A'', example_step ''A'' ''a.py'' [''U'']),
      (''B'', example_step ''B'' ''b.py'' [''U'', ''A''])]"

definition dangling_U_connections :: "connection list" where
  "dangling_U_connections = [ConnectionDOMWrapper (Some ''A'') (Some ''B'')]"

definition dangling_D :: steps where
  "dangling_D =
     [(''A'', example_step ''A'' ''a.py'' []),
      (''B'', example_step ''B'' ''b.py'' [''D'', ''A''])]"

text \<open>
  A step with a title; documents with three notebook steps, and with two script steps, on
  one file.
\<close>

definition titled_step :: "string \<Rightarrow> string \<Rightarrow> string \<Rightarrow> step" where
  "titled_step u t path = (example_step u path [])\<lparr>title := t\<rparr>"

definition three_notebooks :: pipeline_json where
  "three_notebooks =
     \<lparr>pj_steps =
        [(''A'', titled_step ''A'' ''Load'' ''a.py''),
         (''B'', titled_step ''B'' ''Clean'' ''nb.ipynb''),
         (''C'', titled_step ''C'' ''Train'' ''nb.ipynb''),
         (''D'', titled_step ''D'' ''Plot'' ''nb.ipynb'')],
      pj_properties = []\<rparr>"

definition two_scripts :: pipeline_json where
  "two_scripts =
     \<lparr>pj_steps =
        [(''A'', example_step ''A'' ''a.py'' []),
         (''B'', example_step ''B'' ''a.py'' [])],
      pj_properties = []\<rparr>"

definition example_extension :: "string \<Rightarrow> string" where
  "example_extension path = (if path = ''nb.ipynb'' then ''ipynb'' else ''py'')"

text \<open>A view whose first step has been dragged and carries outgoing connections.\<close>

definition dragged_view :: pipeline_view where
  "dragged_view =
     \<lparr>state_steps =
        [(''A'', (example_step ''A'' ''a.py'' [])
                  \<lparr>meta_data := [(''position'', JArr [JNum 3, JNum 4]), (''_dragged'', JBool True),
                                 (''_drag_count'', JNum 2), (''hidden'', JBool False)],
                   outgoing_connections := Some [''B'']\<rparr>),
         (''B'', example_step ''B'' ''b.py'' [''A''])],
      state_pipelineJson = Some \<lparr>pj_steps = [], pj_properties = [(''name'', JStr ''demo'')]\<rparr>\<rparr>"

section \<open>Lemmas\<close>

subsection \<open>Arrays and objects\<close>

lemma indexOf_None_iff: "indexOf xs x = None \<longleftrightarrow> x \<notin> set xs"
  by (induction xs) auto

lemma splice1_indexOf: "indexOf xs x = Some i \<Longrightarrow> splice1 i xs = remove1 x xs"
proof (induction xs arbitrary: i)
  case Nil
  then show ?case by simp
next
  case (Cons y ys)
  then show ?case by (auto simp: splice1_def split: if_splits)
qed

lemma strip_connection_remove1:
  "strip_connection u st = st\<lparr>incoming_connections := remove1 u (incoming_connections st)\<rparr>"
  by (auto simp: strip_connection_def splice1_indexOf indexOf_None_iff remove1_idem
      split: option.splits)

lemma map_of_map_entries:
  "map_of (map (\<lambda>(key, st). (key, f st)) S) k = map_option f (map_of S k)"
  by (induction S) auto

lemma map_fst_map_entries: "map fst (map (\<lambda>(key, st). (key, f st)) S) = map fst S"
  by (induction S) auto

lemma key_lookup: "u \<in> fst ` set S \<Longrightarrow> \<exists>st. map_of S u = Some st"
  by (cases "map_of S u") (auto simp: map_of_eq_None_iff)

lemma lookup_key: "map_of S u = Some st \<Longrightarrow> u \<in> fst ` set S"
  by (metis map_of_eq_None_iff option.distinct(1))

lemma set_set_delete [simp]: "set (set_delete x xs) = set xs - {x}"
  by (simp add: set_delete_def)

lemma set_set_add [simp]: "set (set_add x xs) = insert x (set xs)"
  by (auto simp: set_add_def)

subsection \<open>The steps without their outgoing connections\<close>

lemma map_of_forget_outgoing:
  "map_of (forget_outgoing S) k = map_option (\<lambda>st. st\<lparr>outgoing_connections := None\<rparr>) (map_of S k)"
  by (simp add: forget_outgoing_def map_of_map_entries)

lemma forget_outgoing_keys:
  "forget_outgoing A = forget_outgoing B \<Longrightarrow> map fst A = map fst B"
  by (metis forget_outgoing_def map_fst_map_entries)

lemma forget_outgoing_key_set:
  "forget_outgoing A = forget_outgoing B \<Longrightarrow> fst ` set A = fst ` set B"
  by (metis forget_outgoing_keys list.set_map)

lemma forget_outgoing_incoming:
  assumes "forget_outgoing A = forget_outgoing B"
  shows "map_option incoming_connections (map_of A k) = map_option incoming_connections (map_of B k)"
proof -
  have "map_option incoming_connections (map_of (forget_outgoing A) k) =
      map_option incoming_connections (map_of A k)" for A
    by (simp add: map_of_forget_outgoing option.map_comp comp_def)
  with assms show ?thesis by metis
qed

lemma forget_outgoing_incoming_rel:
  assumes "forget_outgoing A = forget_outgoing B"
  shows "incoming_rel A = incoming_rel B"
proof -
  have "map_option incoming_connections (map_of A k) = map_option incoming_connections (map_of B k)"
    for k
  proof -
    have "map_option incoming_connections (map_of (forget_outgoing A) k) =
        map_option incoming_connections (map_of A k)" for A
      by (simp add: map_of_forget_outgoing option.map_comp comp_def)
    with assms show ?thesis by metis
  qed
  then have "(\<exists>st. map_of A k = Some st \<and> src \<in> set (incoming_connections st)) \<longleftrightarrow>
      (\<exists>st. map_of B k = Some st \<and> src \<in> set (incoming_connections st))" for k src
    by (metis (no_types, lifting) map_option_eq_Some option.simps(9))
  then show ?thesis by (simp add: incoming_rel_def)
qed

lemma forget_outgoing_update:
  "forget_outgoing (AList.update k st S) =
     AList.update k (st\<lparr>outgoing_connections := None\<rparr>) (forget_outgoing S)"
  by (induction S) (auto simp: forget_outgoing_def)

lemma forget_outgoing_update_outgoing:
  assumes "map_of S k = Some st"
  shows "forget_outgoing (AList.update k (st\<lparr>outgoing_connections := x\<rparr>) S) = forget_outgoing S"
  using assms
  by (simp add: forget_outgoing_update update_triv map_of_forget_outgoing)

lemma forget_outgoing_reset: "forget_outgoing (reset_outgoing S) = forget_outgoing S"
  by (induction S) (auto simp: forget_outgoing_def reset_outgoing_def)

lemma incoming_rel_edges: "distinct (map fst S) \<Longrightarrow> incoming_rel S = edges S"
  by (induction S) (auto simp: incoming_rel_def edges_def image_iff split: if_splits)

lemma incoming_rel_pushed:
  assumes "map_of S t = Some st"
  shows "incoming_rel (AList.update t
      (st\<lparr>incoming_connections := incoming_connections st @ [s]\<rparr>) S) = insert (s, t) (incoming_rel S)"
  using assms by (auto simp: incoming_rel_def update_conv' split: if_splits)

subsection \<open>The search\<close>

lemma outgoing_rel_keys:
  "outgoing_ok S \<Longrightarrow> (u, c) \<in> outgoing_rel S \<Longrightarrow> u \<in> fst ` set S \<and> c \<in> fst ` set S"
  unfolding outgoing_ok_def outgoing_rel_def
  by (fastforce dest: lookup_key)

lemma dfs_no_error:
  "outgoing_ok S \<Longrightarrow> u \<in> fst ` set S \<Longrightarrow> \<exists>r. dfsWithSets S u sets = Inr r"
  "outgoing_ok S \<Longrightarrow> set cs \<subseteq> fst ` set S \<Longrightarrow> \<exists>r. dfs_children S u cs sets = Inr r"
proof (induction S u sets and S u cs sets rule: dfsWithSets_dfs_children.induct)
  case (1 S step_uuid whiteSet greySet)
  from key_lookup [OF "1.prems"(2)] obtain st where st: "map_of S step_uuid = Some st"
    by blast
  with "1.prems"(1) obtain out where out: "outgoing_connections st = Some out" "set out \<subseteq> fst ` set S"
    unfolding outgoing_ok_def by blast
  from "1.IH" [OF st out(1) "1.prems"(1) out(2)] st out show ?case
    by (simp add: dfsWithSets.simps)
next
  case (2 S step_uuid whiteSet greySet)
  show ?case by auto
next
  case (3 S step_uuid child_uuid rest whiteSet greySet)
  from "3.prems" have child: "child_uuid \<in> fst ` set S" and rest: "set rest \<subseteq> fst ` set S"
    by auto
  show ?case
  proof (cases "child_uuid \<in> set whiteSet")
    case True
    from "3.IH"(1) [OF True "3.prems"(1) child] obtain f sets' where
      call: "dfsWithSets S child_uuid (whiteSet, greySet) = Inr (f, sets')"
      by (cases) auto
    show ?thesis
    proof (cases f)
      case True
      with \<open>child_uuid \<in> set whiteSet\<close> call show ?thesis by auto
    next
      case False
      from "3.IH"(2) [OF \<open>child_uuid \<in> set whiteSet\<close> call refl False "3.prems"(1) rest]
        \<open>child_uuid \<in> set whiteSet\<close> call False
      show ?thesis by auto
    qed
  next
    case False
    with "3.IH"(3) [OF False _ "3.prems"(1) rest] show ?thesis
      by (cases "child_uuid \<in> set greySet") auto
  qed
qed

lemma dfs_white_subset:
  "dfsWithSets S u sets = Inr (b, w', g') \<Longrightarrow> set w' \<subseteq> set (fst sets) - {u}"
  "dfs_children S u cs sets = Inr (b, w', g') \<Longrightarrow> set w' \<subseteq> set (fst sets)"
proof (induction S u sets and S u cs sets arbitrary: b w' g' and b w' g'
    rule: dfsWithSets_dfs_children.induct)
  case (1 S step_uuid whiteSet greySet)
  then show ?case
    by (fastforce simp: dfsWithSets.simps split: option.splits)
next
  case (2 S step_uuid whiteSet greySet)
  then show ?case by auto
next
  case (3 S step_uuid child_uuid rest whiteSet greySet)
  show ?case
  proof (cases "child_uuid \<in> set whiteSet")
    case True
    then obtain f w1 g1 where call: "dfsWithSets S child_uuid (whiteSet, greySet) = Inr (f, w1, g1)"
      using "3.prems" by (auto split: sum.splits)
    have sub1: "set w1 \<subseteq> set whiteSet - {child_uuid}"
      using "3.IH"(1) [OF True call] by simp
    show ?thesis
    proof (cases f)
      case True
      with \<open>child_uuid \<in> set whiteSet\<close> call "3.prems" sub1 show ?thesis
        by auto
    next
      case False
      with \<open>child_uuid \<in> set whiteSet\<close> call "3.prems" have
        "dfs_children S step_uuid rest (w1, g1) = Inr (b, w', g')"
        by auto
      from "3.IH"(2) [OF \<open>child_uuid \<in> set whiteSet\<close> call refl False this] sub1
      show ?thesis by auto
    qed
  next
    case False
    with "3.prems" "3.IH"(3) show ?thesis
      by (auto split: if_splits)
  qed
qed

lemma closed_rtrancl:
  assumes "(c, x) \<in> R\<^sup>*" and "c \<in> B" and "\<forall>b \<in> B. \<forall>c. (b, c) \<in> R \<longrightarrow> c \<in> B"
  shows "x \<in> B"
  using assms by (induction rule: rtrancl_induct) auto

lemma dfs_inv_finish:
  assumes inv: "dfs_inv S w g"
    and u: "u \<in> fst ` set S" "u \<in> set g" "u \<notin> set w"
    and kids: "\<forall>c. (u, c) \<in> outgoing_rel S \<longrightarrow> c \<in> black S w g"
  shows "dfs_inv S w (set_delete u g)"
proof -
  let ?R = "outgoing_rel S"
  let ?B = "black S w g"
  have B': "black S w (set_delete u g) = insert u ?B"
    using u by (auto simp: black_def)
  have closed: "\<forall>b \<in> ?B. \<forall>c. (b, c) \<in> ?R \<longrightarrow> c \<in> ?B"
    and nocyc: "\<forall>b \<in> ?B. (b, b) \<notin> ?R\<^sup>+"
    using inv by (simp_all add: dfs_inv_def)
  have "u \<notin> ?B"
    using u by (simp add: black_def)
  have "(u, u) \<notin> ?R\<^sup>+"
  proof
    assume "(u, u) \<in> ?R\<^sup>+"
    then obtain c where c: "(u, c) \<in> ?R" "(c, u) \<in> ?R\<^sup>*"
      by (blast dest: tranclD)
    from kids c(1) have "c \<in> ?B" by blast
    from closed_rtrancl [OF c(2) this closed] \<open>u \<notin> ?B\<close> show False by simp
  qed
  with closed nocyc kids show ?thesis
    unfolding dfs_inv_def B' by blast
qed

lemma dfs_correct:
  "dfsWithSets S u sets = Inr (b, w', g') \<Longrightarrow> outgoing_ok S \<Longrightarrow> u \<in> fst ` set S \<Longrightarrow>
     u \<in> set (fst sets) \<Longrightarrow> set (fst sets) \<inter> set (snd sets) = {} \<Longrightarrow>
     dfs_inv S (fst sets) (snd sets) \<Longrightarrow>
     (\<forall>x \<in> set (snd sets). (x, u) \<in> (outgoing_rel S)\<^sup>*) \<Longrightarrow>
     (if b then \<not> acyclic (outgoing_rel S)
      else set g' = set (snd sets) \<and> set w' \<subseteq> set (fst sets) - {u} \<and> dfs_inv S w' g')"
  "dfs_children S u cs sets = Inr (b, w', g') \<Longrightarrow> outgoing_ok S \<Longrightarrow> u \<in> fst ` set S \<Longrightarrow>
     u \<in> set (snd sets) \<Longrightarrow> u \<notin> set (fst sets) \<Longrightarrow>
     set (fst sets) \<inter> set (snd sets) = {} \<Longrightarrow>
     dfs_inv S (fst sets) (snd sets) \<Longrightarrow>
     (\<forall>x \<in> set (snd sets). (x, u) \<in> (outgoing_rel S)\<^sup>*) \<Longrightarrow>
     (\<forall>c \<in> set cs. (u, c) \<in> outgoing_rel S) \<Longrightarrow>
     (\<forall>c. (u, c) \<in> outgoing_rel S \<longrightarrow> c \<in> set cs \<or> c \<in> black S (fst sets) (snd sets)) \<Longrightarrow>
     (if b then \<not> acyclic (outgoing_rel S)
      else set g' = set (snd sets) - {u} \<and> set w' \<subseteq> set (fst sets) \<and> dfs_inv S w' g')"
proof (induction S u sets and S u cs sets arbitrary: b w' g' and b w' g'
    rule: dfsWithSets_dfs_children.induct)
  case (1 S step_uuid whiteSet greySet)
  let ?R = "outgoing_rel S"
  from "1.prems"(1) obtain st out where st: "map_of S step_uuid = Some st"
    and out: "outgoing_connections st = Some out"
    and call: "dfs_children S step_uuid out
        (set_delete step_uuid whiteSet, set_add step_uuid greySet) = Inr (b, w', g')"
    by (auto simp: dfsWithSets.simps split: option.splits)
  from "1.prems" have u_w: "step_uuid \<in> set whiteSet" and u_g: "step_uuid \<notin> set greySet"
    and disj: "set whiteSet \<inter> set greySet = {}"
    by auto
  let ?sets = "(set_delete step_uuid whiteSet, set_add step_uuid greySet)"
  have black_eq: "black S (fst ?sets) (snd ?sets) = black S whiteSet greySet"
    using u_w by (auto simp: black_def)
  have a1: "step_uuid \<in> set (snd ?sets)" and a2: "step_uuid \<notin> set (fst ?sets)"
    by simp_all
  have a3: "set (fst ?sets) \<inter> set (snd ?sets) = {}"
    using disj by auto
  have a4: "dfs_inv S (fst ?sets) (snd ?sets)"
    using "1.prems"(6) unfolding dfs_inv_def black_eq by simp
  have a5: "\<forall>x \<in> set (snd ?sets). (x, step_uuid) \<in> ?R\<^sup>*"
    using "1.prems"(7) by auto
  have a6: "\<forall>c \<in> set out. (step_uuid, c) \<in> ?R"
    using st out by (auto simp: outgoing_rel_def)
  have a7: "\<forall>c. (step_uuid, c) \<in> ?R \<longrightarrow> c \<in> set out \<or> c \<in> black S (fst ?sets) (snd ?sets)"
    using st out by (auto simp: outgoing_rel_def)
  from "1.IH" [OF st out call "1.prems"(2,3) a1 a2 a3 a4 a5 a6 a7] u_g
  show ?case by (auto split: if_splits)
next
  case (2 S step_uuid whiteSet greySet)
  from "2.prems"(1) have b: "b = False" "w' = whiteSet" "g' = set_delete step_uuid greySet"
    by auto
  have "dfs_inv S whiteSet (set_delete step_uuid greySet)"
    using "2.prems" by (intro dfs_inv_finish) auto
  with b show ?case by simp
next
  case (3 S step_uuid child_uuid rest whiteSet greySet)
  let ?R = "outgoing_rel S"
  from "3.prems" have ok: "outgoing_ok S" and u_K: "step_uuid \<in> fst ` set S"
    and u_g: "step_uuid \<in> set greySet" and u_w: "step_uuid \<notin> set whiteSet"
    and disj: "set whiteSet \<inter> set greySet = {}"
    and inv: "dfs_inv S whiteSet greySet"
    and path: "\<forall>x \<in> set greySet. (x, step_uuid) \<in> ?R\<^sup>*"
    and edge: "(step_uuid, child_uuid) \<in> ?R"
    and kids: "\<forall>c \<in> set rest. (step_uuid, c) \<in> ?R"
    and cover: "\<forall>c. (step_uuid, c) \<in> ?R \<longrightarrow>
        c = child_uuid \<or> c \<in> set rest \<or> c \<in> black S whiteSet greySet"
    by auto
  from outgoing_rel_keys [OF ok edge] have c_K: "child_uuid \<in> fst ` set S" by simp
  show ?case
  proof (cases "child_uuid \<in> set whiteSet")
    case True
    then obtain f w1 g1 where call: "dfsWithSets S child_uuid (whiteSet, greySet) = Inr (f, w1, g1)"
      using "3.prems"(1) by (auto split: sum.splits)
    have path_c: "\<forall>x \<in> set greySet. (x, child_uuid) \<in> ?R\<^sup>*"
      using path edge by (auto intro: rtrancl_into_rtrancl)
    have res1: "if f then \<not> acyclic ?R
        else set g1 = set greySet \<and> set w1 \<subseteq> set whiteSet - {child_uuid} \<and> dfs_inv S w1 g1"
      using "3.IH"(1) [OF True call ok c_K] True disj inv path_c by (simp split: if_splits)
    show ?thesis
    proof (cases f)
      case True
      with \<open>child_uuid \<in> set whiteSet\<close> call "3.prems"(1) res1 show ?thesis
        by auto
    next
      case False
      with \<open>child_uuid \<in> set whiteSet\<close> call "3.prems"(1) have
        call2: "dfs_children S step_uuid rest (w1, g1) = Inr (b, w', g')"
        by auto
      from res1 False have g1: "set g1 = set greySet"
        and w1: "set w1 \<subseteq> set whiteSet - {child_uuid}" and inv1: "dfs_inv S w1 g1"
        by simp_all
      have c_g: "child_uuid \<notin> set greySet"
        using \<open>child_uuid \<in> set whiteSet\<close> disj by auto
      have mono: "black S whiteSet greySet \<subseteq> black S w1 g1"
        using g1 w1 by (auto simp: black_def)
      have c_black: "child_uuid \<in> black S w1 g1"
        using c_K c_g g1 w1 by (auto simp: black_def)
      have cover1: "\<forall>c. (step_uuid, c) \<in> ?R \<longrightarrow> c \<in> set rest \<or> c \<in> black S w1 g1"
        using cover mono c_black by blast
      have b1: "step_uuid \<in> set (snd (w1, g1))" and b2: "step_uuid \<notin> set (fst (w1, g1))"
        using u_g u_w g1 w1 by auto
      have b3: "set (fst (w1, g1)) \<inter> set (snd (w1, g1)) = {}"
        using disj g1 w1 by auto
      have b4: "dfs_inv S (fst (w1, g1)) (snd (w1, g1))"
        using inv1 by simp
      have b5: "\<forall>x \<in> set (snd (w1, g1)). (x, step_uuid) \<in> ?R\<^sup>*"
        using path g1 by simp
      have b7: "\<forall>c. (step_uuid, c) \<in> ?R \<longrightarrow> c \<in> set rest \<or> c \<in> black S (fst (w1, g1)) (snd (w1, g1))"
        using cover1 by simp
      have res2: "if b then \<not> acyclic ?R
          else set g' = set g1 - {step_uuid} \<and> set w' \<subseteq> set w1 \<and> dfs_inv S w' g'"
        using "3.IH"(2) [OF \<open>child_uuid \<in> set whiteSet\<close> call refl False call2 ok u_K
            b1 b2 b3 b4 b5 kids b7]
        by (simp split: if_splits)
      with g1 w1 show ?thesis by (auto split: if_splits)
    qed
  next
    case False
    show ?thesis
    proof (cases "child_uuid \<in> set greySet")
      case True
      with False "3.prems"(1) have b: "b" by auto
      from path True have "(child_uuid, step_uuid) \<in> ?R\<^sup>*" by blast
      with edge have "(child_uuid, child_uuid) \<in> ?R\<^sup>+" by (auto intro: rtrancl_into_trancl1)
      then have "\<not> acyclic ?R" by (auto simp: acyclic_def)
      with b show ?thesis by simp
    next
      case grey: False
      with False "3.prems"(1) have
        call2: "dfs_children S step_uuid rest (whiteSet, greySet) = Inr (b, w', g')"
        by auto
      have "child_uuid \<in> black S whiteSet greySet"
        using c_K False grey by (simp add: black_def)
      with cover have cover1: "\<forall>c. (step_uuid, c) \<in> ?R \<longrightarrow>
          c \<in> set rest \<or> c \<in> black S whiteSet greySet"
        by blast
      have c1: "step_uuid \<in> set (snd (whiteSet, greySet))"
        and c2: "step_uuid \<notin> set (fst (whiteSet, greySet))"
        and c3: "set (fst (whiteSet, greySet)) \<inter> set (snd (whiteSet, greySet)) = {}"
        and c4: "dfs_inv S (fst (whiteSet, greySet)) (snd (whiteSet, greySet))"
        and c5: "\<forall>x \<in> set (snd (whiteSet, greySet)). (x, step_uuid) \<in> ?R\<^sup>*"
        and c7: "\<forall>c. (step_uuid, c) \<in> ?R \<longrightarrow>
          c \<in> set rest \<or> c \<in> black S (fst (whiteSet, greySet)) (snd (whiteSet, greySet))"
        using u_g u_w disj inv path cover1 by simp_all
      from "3.IH"(3) [OF False grey call2 ok u_K c1 c2 c3 c4 c5 kids c7]
      show ?thesis by simp
    qed
  qed
qed

lemma whileWhite_correct:
  "outgoing_ok S \<Longrightarrow> set (fst sets) \<subseteq> fst ` set S \<Longrightarrow>
   (cycles \<longrightarrow> \<not> acyclic (outgoing_rel S)) \<Longrightarrow>
   (\<not> cycles \<longrightarrow> set (snd sets) = {} \<and> dfs_inv S (fst sets) (snd sets)) \<Longrightarrow>
   \<exists>r. whileWhite S sets cycles = Inr r \<and> (r \<longleftrightarrow> \<not> acyclic (outgoing_rel S))"
proof (induction S sets cycles rule: whileWhite.induct)
  case (1 S whiteSet greySet cycles)
  let ?R = "outgoing_rel S"
  from "1.prems" have ok: "outgoing_ok S" and sub: "set whiteSet \<subseteq> fst ` set S"
    by simp_all
  show ?case
  proof (cases whiteSet)
    case Nil
    have "cycles \<longleftrightarrow> \<not> acyclic ?R"
    proof (cases cycles)
      case True
      with "1.prems"(3) show ?thesis by simp
    next
      case False
      with "1.prems"(4) Nil have blk: "black S [] greySet = fst ` set S"
        and inv: "dfs_inv S [] greySet"
        by (auto simp: black_def)
      have "(x, x) \<notin> ?R\<^sup>+" for x
      proof
        assume xx: "(x, x) \<in> ?R\<^sup>+"
        then obtain y where "(x, y) \<in> ?R" by (blast dest: tranclD)
        from outgoing_rel_keys [OF ok this] have "x \<in> black S [] greySet"
          unfolding blk by simp
        with inv xx show False by (auto simp: dfs_inv_def)
      qed
      then have "acyclic ?R" by (simp add: acyclic_def)
      with False show ?thesis by simp
    qed
    with Nil show ?thesis by (simp add: whileWhite.simps)
  next
    case (Cons u us)
    with sub have u_K: "u \<in> fst ` set S" and u_w: "u \<in> set whiteSet" by auto
    from dfs_no_error(1) [OF ok u_K, of "(whiteSet, greySet)"] obtain f w1 g1 where
      call: "dfsWithSets S u (whiteSet, greySet) = Inr (f, w1, g1)"
      by auto
    from dfs_white_subset(1) [OF call] sub have sub1: "set (fst (w1, g1)) \<subseteq> fst ` set S"
      by auto
    have cyc1: "(if f then True else cycles) \<longrightarrow> \<not> acyclic ?R"
      and inv1: "\<not> (if f then True else cycles) \<longrightarrow>
          set (snd (w1, g1)) = {} \<and> dfs_inv S (fst (w1, g1)) (snd (w1, g1))"
    proof -
      show "(if f then True else cycles) \<longrightarrow> \<not> acyclic ?R"
      proof (cases cycles)
        case True
        with "1.prems"(3) show ?thesis by simp
      next
        case False
        with "1.prems"(4) have g: "set greySet = {}" and inv: "dfs_inv S whiteSet greySet"
          by auto
        from dfs_correct(1) [OF call ok u_K] u_w g inv False show ?thesis
          by (auto split: if_splits)
      qed
      show "\<not> (if f then True else cycles) \<longrightarrow>
          set (snd (w1, g1)) = {} \<and> dfs_inv S (fst (w1, g1)) (snd (w1, g1))"
      proof (cases "f \<or> cycles")
        case True
        then show ?thesis by auto
      next
        case False
        with "1.prems"(4) have g: "set greySet = {}" and inv: "dfs_inv S whiteSet greySet"
          by auto
        from dfs_correct(1) [OF call ok u_K] u_w g inv False show ?thesis
          by (auto split: if_splits)
      qed
    qed
    from "1.IH" [OF Cons call refl ok sub1 cyc1 inv1] Cons call show ?thesis
      by (simp add: whileWhite.simps)
  qed
qed

subsection \<open>Building the outgoing connections\<close>

lemma outgoing_rel_update:
  assumes "map_of T src = Some st" "outgoing_connections st = Some out"
  shows "outgoing_rel (AList.update src (st\<lparr>outgoing_connections := Some (out @ [t])\<rparr>) T) =
    insert (src, t) (outgoing_rel T)"
  using assms by (auto simp: outgoing_rel_def update_conv' split: if_splits)

lemma has_outgoing_update:
  "has_outgoing T \<Longrightarrow> has_outgoing (AList.update src (st\<lparr>outgoing_connections := Some x\<rparr>) T)"
  by (auto simp: has_outgoing_def update_conv' split: if_splits)

lemma outgoing_rel_reset: "outgoing_rel (reset_outgoing S) = {}"
  by (auto simp: outgoing_rel_def reset_outgoing_def map_of_map_entries)

lemma has_outgoing_reset: "has_outgoing (reset_outgoing S)"
  by (auto simp: has_outgoing_def reset_outgoing_def map_of_map_entries)

lemma push_outgoing_Return:
  "push_outgoing t srcs T = Return () T' \<Longrightarrow>
     forget_outgoing T' = forget_outgoing T \<and> set srcs \<subseteq> fst ` set T \<and>
     outgoing_rel T' = outgoing_rel T \<union> (\<lambda>src. (src, t)) ` set srcs \<and>
     (has_outgoing T \<longrightarrow> has_outgoing T')"
proof (induction srcs arbitrary: T)
  case Nil
  then show ?case by simp
next
  case (Cons src srcs)
  from Cons.prems obtain st out where st: "map_of T src = Some st"
    and out: "outgoing_connections st = Some out"
    and rest: "push_outgoing t srcs
        (AList.update src (st\<lparr>outgoing_connections := Some (out @ [t])\<rparr>) T) = Return () T'"
    by (auto split: option.splits)
  let ?T1 = "AList.update src (st\<lparr>outgoing_connections := Some (out @ [t])\<rparr>) T"
  have f1: "forget_outgoing ?T1 = forget_outgoing T"
    by (rule forget_outgoing_update_outgoing [OF st])
  have k1: "fst ` set ?T1 = fst ` set T"
    by (rule forget_outgoing_key_set [OF f1])
  have r1: "outgoing_rel ?T1 = insert (src, t) (outgoing_rel T)"
    by (rule outgoing_rel_update [OF st out])
  have h1: "has_outgoing T \<longrightarrow> has_outgoing ?T1"
    by (simp add: has_outgoing_update)
  from lookup_key [OF st] have "src \<in> fst ` set T" .
  with Cons.IH [OF rest] f1 k1 r1 h1 show ?case by auto
qed

lemma push_outgoing_total:
  "set srcs \<subseteq> fst ` set T \<Longrightarrow> has_outgoing T \<Longrightarrow> \<exists>T'. push_outgoing t srcs T = Return () T'"
proof (induction srcs arbitrary: T)
  case Nil
  then show ?case by simp
next
  case (Cons src srcs)
  from Cons.prems(1) key_lookup [of src T] obtain st where st: "map_of T src = Some st"
    by auto
  with Cons.prems(2) obtain out where out: "outgoing_connections st = Some out"
    by (auto simp: has_outgoing_def)
  let ?T1 = "AList.update src (st\<lparr>outgoing_connections := Some (out @ [t])\<rparr>) T"
  have "fst ` set ?T1 = fst ` set T"
    by (rule forget_outgoing_key_set [OF forget_outgoing_update_outgoing [OF st]])
  with Cons.prems have "set srcs \<subseteq> fst ` set ?T1" by simp
  from Cons.IH [OF this has_outgoing_update [OF Cons.prems(2)]] st out show ?case
    by simp
qed

lemma build_outgoing_Return:
  "build_outgoing ks T = Return () T' \<Longrightarrow>
     forget_outgoing T' = forget_outgoing T \<and>
     outgoing_rel T' = outgoing_rel T \<union> {(src, k). (src, k) \<in> incoming_rel T \<and> k \<in> set ks} \<and>
     (\<forall>(src, k) \<in> incoming_rel T. k \<in> set ks \<longrightarrow> src \<in> fst ` set T) \<and>
     set ks \<subseteq> fst ` set T \<and>
     (has_outgoing T \<longrightarrow> has_outgoing T')"
proof (induction ks arbitrary: T)
  case Nil
  then show ?case by simp
next
  case (Cons k ks)
  from Cons.prems obtain st T1 where st: "map_of T k = Some st"
    and push: "push_outgoing k (incoming_connections st) T = Return () T1"
    and rest: "build_outgoing ks T1 = Return () T'"
    by (auto split: option.splits outcome.splits)
  from push_outgoing_Return [OF push] have f1: "forget_outgoing T1 = forget_outgoing T"
    and s1: "set (incoming_connections st) \<subseteq> fst ` set T"
    and r1: "outgoing_rel T1 = outgoing_rel T \<union> (\<lambda>src. (src, k)) ` set (incoming_connections st)"
    and h1: "has_outgoing T \<longrightarrow> has_outgoing T1"
    by simp_all
  have i1: "incoming_rel T1 = incoming_rel T"
    by (rule forget_outgoing_incoming_rel [OF f1])
  have k1: "fst ` set T1 = fst ` set T"
    by (rule forget_outgoing_key_set [OF f1])
  have here: "(\<lambda>src. (src, k)) ` set (incoming_connections st) =
      {(src, k'). (src, k') \<in> incoming_rel T \<and> k' = k}"
    using st by (auto simp: incoming_rel_def)
  from Cons.IH [OF rest] have f2: "forget_outgoing T' = forget_outgoing T1"
    and r2: "outgoing_rel T' =
        outgoing_rel T1 \<union> {(src, k). (src, k) \<in> incoming_rel T1 \<and> k \<in> set ks}"
    and c2: "\<forall>(src, k) \<in> incoming_rel T1. k \<in> set ks \<longrightarrow> src \<in> fst ` set T1"
    and s2: "set ks \<subseteq> fst ` set T1"
    and h2: "has_outgoing T1 \<longrightarrow> has_outgoing T'"
    by simp_all
  have 1: "forget_outgoing T' = forget_outgoing T"
    using f1 f2 by simp
  have 2: "outgoing_rel T' =
      outgoing_rel T \<union> {(src, k'). (src, k') \<in> incoming_rel T \<and> k' \<in> set (k # ks)}"
    unfolding r2 r1 here i1 by auto
  have 3: "\<forall>(src, k') \<in> incoming_rel T. k' \<in> set (k # ks) \<longrightarrow> src \<in> fst ` set T"
    using c2 s1 st unfolding i1 k1 by (auto simp: incoming_rel_def)
  have 4: "set (k # ks) \<subseteq> fst ` set T"
    using s2 lookup_key [OF st] unfolding k1 by simp
  from 1 2 3 4 h1 h2 show ?case by blast
qed

lemma build_outgoing_total:
  "set ks \<subseteq> fst ` set T \<Longrightarrow> has_outgoing T \<Longrightarrow>
   (\<forall>(src, k) \<in> incoming_rel T. src \<in> fst ` set T) \<Longrightarrow>
   \<exists>T'. build_outgoing ks T = Return () T'"
proof (induction ks arbitrary: T)
  case Nil
  then show ?case by simp
next
  case (Cons k ks)
  from Cons.prems(1) key_lookup [of k T] obtain st where st: "map_of T k = Some st"
    by auto
  with Cons.prems(3) have "set (incoming_connections st) \<subseteq> fst ` set T"
    by (auto simp: incoming_rel_def)
  from push_outgoing_total [OF this Cons.prems(2)] obtain T1 where
    push: "push_outgoing k (incoming_connections st) T = Return () T1"
    by blast
  from push_outgoing_Return [OF push] Cons.prems(2) have
    f1: "forget_outgoing T1 = forget_outgoing T" and h1: "has_outgoing T1"
    by simp_all
  have i1: "incoming_rel T1 = incoming_rel T"
    by (rule forget_outgoing_incoming_rel [OF f1])
  have k1: "fst ` set T1 = fst ` set T"
    by (rule forget_outgoing_key_set [OF f1])
  from Cons.prems have "set ks \<subseteq> fst ` set T1"
    and "\<forall>(src, k) \<in> incoming_rel T1. src \<in> fst ` set T1"
    unfolding i1 k1 by simp_all
  from Cons.IH [OF this(1) h1 this(2)] st push show ?case by simp
qed

subsection \<open>willCreateCycle, makeConnection and connect\<close>

lemma willCreateCycle_Return:
  assumes ret: "willCreateCycle S s t = Return b S'"
  shows "forget_outgoing S' = forget_outgoing S \<and>
         (b \<longleftrightarrow> \<not> acyclic (insert (s, t) (incoming_rel S))) \<and>
         s \<in> fst ` set S \<and> t \<in> fst ` set S \<and>
         (\<forall>(src, k) \<in> incoming_rel S. src \<in> fst ` set S)"
proof -
  from ret obtain endStep where endStep: "map_of S t = Some endStep"
    by (auto simp: willCreateCycle_def split: option.splits)
  define pushed where "pushed = endStep\<lparr>incoming_connections := incoming_connections endStep @ [s]\<rparr>"
  define S1 where "S1 = AList.update t pushed S"
  define S2 where "S2 = reset_outgoing S1"
  define idx where "idx = length (incoming_connections endStep @ [s]) - 1"
  from ret endStep obtain S3 where build: "build_outgoing (map fst S2) S2 = Return () S3"
    by (auto simp: willCreateCycle_def Let_def S2_def S1_def pushed_def
        split: outcome.splits)
  from ret endStep build obtain cycles where while: "whileWhite S3 (map fst S3, []) False = Inr cycles"
    by (auto simp: willCreateCycle_def Let_def S2_def S1_def pushed_def
        split: sum.splits)
  from ret endStep build while obtain endStep' where endStep': "map_of S3 t = Some endStep'"
    and S': "S' = AList.update t
        (endStep'\<lparr>incoming_connections := splice1 idx (incoming_connections endStep')\<rparr>) S3"
    and b: "b = cycles"
    by (auto simp: willCreateCycle_def Let_def S2_def S1_def pushed_def idx_def
        split: option.splits)
  have f1: "forget_outgoing S1 = AList.update t (pushed\<lparr>outgoing_connections := None\<rparr>) (forget_outgoing S)"
    by (simp add: S1_def forget_outgoing_update)
  have f2: "forget_outgoing S2 = forget_outgoing S1"
    by (simp add: S2_def forget_outgoing_reset)
  have k1: "fst ` set S1 = fst ` set S"
    using lookup_key [OF endStep] by (auto simp: S1_def dom_update)
  have k2: "fst ` set S2 = fst ` set S"
    using forget_outgoing_key_set [OF f2] k1 by simp
  have i1: "incoming_rel S1 = insert (s, t) (incoming_rel S)"
    unfolding S1_def pushed_def by (rule incoming_rel_pushed [OF endStep])
  have i2: "incoming_rel S2 = insert (s, t) (incoming_rel S)"
    using forget_outgoing_incoming_rel [OF f2] i1 by simp
  from build_outgoing_Return [OF build] have f3: "forget_outgoing S3 = forget_outgoing S2"
    and r3: "outgoing_rel S3 =
        outgoing_rel S2 \<union> {(src, k). (src, k) \<in> incoming_rel S2 \<and> k \<in> set (map fst S2)}"
    and c3: "\<forall>(src, k) \<in> incoming_rel S2. k \<in> set (map fst S2) \<longrightarrow> src \<in> fst ` set S2"
    and h3: "has_outgoing S2 \<longrightarrow> has_outgoing S3"
    by simp_all
  have tgt: "k \<in> fst ` set S2" if "(src, k) \<in> incoming_rel S2" for src k
    using that by (auto simp: incoming_rel_def dest: lookup_key)
  have refs: "\<forall>(src, k) \<in> insert (s, t) (incoming_rel S). src \<in> fst ` set S"
    using c3 tgt unfolding i2 [symmetric] k2 [symmetric] by auto
  have k3: "fst ` set S3 = fst ` set S"
    using forget_outgoing_key_set [OF f3] k2 by simp
  have r3': "outgoing_rel S3 = insert (s, t) (incoming_rel S)"
    using r3 tgt unfolding i2 [symmetric] S2_def outgoing_rel_reset by auto
  have h3': "has_outgoing S3"
    using h3 by (simp add: S2_def has_outgoing_reset)
  have ok: "outgoing_ok S3"
    unfolding outgoing_ok_def
  proof (intro allI impI)
    fix u st assume st: "map_of S3 u = Some st"
    with h3' obtain out where out: "outgoing_connections st = Some out"
      by (auto simp: has_outgoing_def)
    have "set out \<subseteq> fst ` set S3"
    proof
      fix c assume "c \<in> set out"
      with st out have "(u, c) \<in> outgoing_rel S3"
        by (auto simp: outgoing_rel_def)
      then have "(u, c) \<in> incoming_rel S2" unfolding r3' i2 .
      from tgt [OF this] show "c \<in> fst ` set S3" unfolding k3 k2 .
    qed
    with out show "\<exists>out. outgoing_connections st = Some out \<and> set out \<subseteq> fst ` set S3"
      by blast
  qed
  have "dfs_inv S3 (map fst S3) []"
    by (simp add: dfs_inv_def black_def)
  with whileWhite_correct [OF ok, of "(map fst S3, [])" False] while
  have cyc: "cycles \<longleftrightarrow> \<not> acyclic (insert (s, t) (incoming_rel S))"
    unfolding r3' by auto
  have "map_of (forget_outgoing S3) t = map_of (forget_outgoing S1) t"
    using f3 f2 by simp
  then have e': "endStep'\<lparr>outgoing_connections := None\<rparr> = pushed\<lparr>outgoing_connections := None\<rparr>"
    using endStep' by (simp add: map_of_forget_outgoing S1_def update_conv')
  from arg_cong [OF e', of incoming_connections]
  have inc': "incoming_connections endStep' = incoming_connections endStep @ [s]"
    by (simp add: pushed_def)
  have "(endStep'\<lparr>incoming_connections := splice1 idx (incoming_connections endStep')\<rparr>)
        \<lparr>outgoing_connections := None\<rparr> =
      (endStep'\<lparr>outgoing_connections := None\<rparr>)\<lparr>incoming_connections := incoming_connections endStep\<rparr>"
    by (simp add: inc' idx_def splice1_def)
  also have "\<dots> = endStep\<lparr>outgoing_connections := None\<rparr>"
    unfolding e' by (simp add: pushed_def)
  finally have "forget_outgoing S' =
      AList.update t (endStep\<lparr>outgoing_connections := None\<rparr>) (forget_outgoing S3)"
    by (simp add: S' forget_outgoing_update)
  also have "\<dots> = AList.update t (endStep\<lparr>outgoing_connections := None\<rparr>) (forget_outgoing S)"
    by (simp add: f3 f2 f1)
  also have "\<dots> = forget_outgoing S"
    using endStep by (simp add: update_triv map_of_forget_outgoing)
  finally have 1: "forget_outgoing S' = forget_outgoing S" .
  from refs have "s \<in> fst ` set S" and "\<forall>(src, k) \<in> incoming_rel S. src \<in> fst ` set S"
    by auto
  with 1 cyc b lookup_key [OF endStep] show ?thesis by simp
qed

lemma willCreateCycle_total:
  assumes refs: "\<forall>(src, k) \<in> incoming_rel S. src \<in> fst ` set S"
    and s: "s \<in> fst ` set S" and t: "t \<in> fst ` set S"
  shows "\<exists>b S'. willCreateCycle S s t = Return b S'"
proof -
  from key_lookup [OF t] obtain endStep where endStep: "map_of S t = Some endStep"
    by blast
  define pushed where "pushed = endStep\<lparr>incoming_connections := incoming_connections endStep @ [s]\<rparr>"
  define S1 where "S1 = AList.update t pushed S"
  define S2 where "S2 = reset_outgoing S1"
  have f2: "forget_outgoing S2 = forget_outgoing S1"
    by (simp add: S2_def forget_outgoing_reset)
  have k1: "fst ` set S1 = fst ` set S"
    using t by (auto simp: S1_def dom_update)
  have k2: "fst ` set S2 = fst ` set S"
    using forget_outgoing_key_set [OF f2] k1 by simp
  have i2: "incoming_rel S2 = insert (s, t) (incoming_rel S)"
    using forget_outgoing_incoming_rel [OF f2] incoming_rel_pushed [OF endStep, of s]
    by (simp add: S1_def pushed_def)
  have "\<forall>(src, k) \<in> incoming_rel S2. src \<in> fst ` set S2"
    using refs s unfolding i2 k2 by auto
  from build_outgoing_total [OF _ _ this, of "map fst S2"] obtain S3 where
    build: "build_outgoing (map fst S2) S2 = Return () S3"
    by (auto simp: S2_def has_outgoing_reset)
  from build_outgoing_Return [OF build] have f3: "forget_outgoing S3 = forget_outgoing S2"
    and r3: "outgoing_rel S3 =
        outgoing_rel S2 \<union> {(src, k). (src, k) \<in> incoming_rel S2 \<and> k \<in> set (map fst S2)}"
    and h3: "has_outgoing S3"
    by (simp_all add: S2_def has_outgoing_reset)
  have k3: "fst ` set S3 = fst ` set S"
    using forget_outgoing_key_set [OF f3] k2 by simp
  have tgt: "k \<in> fst ` set S2" if "(src, k) \<in> incoming_rel S2" for src k
    using that by (auto simp: incoming_rel_def dest: lookup_key)
  have ok: "outgoing_ok S3"
    unfolding outgoing_ok_def
  proof (intro allI impI)
    fix u st assume st: "map_of S3 u = Some st"
    with h3 obtain out where out: "outgoing_connections st = Some out"
      by (auto simp: has_outgoing_def)
    have "set out \<subseteq> fst ` set S3"
    proof
      fix c assume "c \<in> set out"
      with st out have "(u, c) \<in> outgoing_rel S3"
        by (auto simp: outgoing_rel_def)
      then have "(u, c) \<in> incoming_rel S2"
        unfolding r3 S2_def outgoing_rel_reset by simp
      from tgt [OF this] show "c \<in> fst ` set S3" unfolding k3 k2 .
    qed
    with out show "\<exists>out. outgoing_connections st = Some out \<and> set out \<subseteq> fst ` set S3"
      by blast
  qed
  have "dfs_inv S3 (map fst S3) []"
    by (simp add: dfs_inv_def black_def)
  with whileWhite_correct [OF ok, of "(map fst S3, [])" False] obtain cycles where
    while: "whileWhite S3 (map fst S3, []) False = Inr cycles"
    by auto
  from t k3 key_lookup [of t S3] obtain endStep' where endStep': "map_of S3 t = Some endStep'"
    by auto
  from endStep build while endStep' show ?thesis
    by (simp add: willCreateCycle_def Let_def S2_def S1_def pushed_def)
qed

lemma wf_graph_refs:
  "wf_graph S \<Longrightarrow> \<forall>(src, k) \<in> incoming_rel S. src \<in> fst ` set S"
  by (fastforce simp: wf_graph_def incoming_rel_def dest: map_of_SomeD)

lemma wf_graph_edges: "wf_graph S \<Longrightarrow> incoming_rel S = edges S"
  by (simp add: wf_graph_def incoming_rel_edges)

lemma makeConnection_Return:
  assumes "makeConnection S s t = Return u S'"
  shows "map fst S' = map fst S \<and> incoming_rel S' \<subseteq> insert (s, t) (incoming_rel S)"
proof -
  from assms obtain st where st: "map_of S t = Some st"
    by (auto simp: makeConnection_def split: option.splits)
  have "map fst (AList.update t v S) = map fst S" for v
    using lookup_key [OF st] by (simp add: update_keys)
  with assms st incoming_rel_pushed [OF st, of s] show ?thesis
    by (auto simp: makeConnection_def split: if_splits)
qed

lemma connect_success:
  assumes "connect S s t = Return r S'" and "connected r" and "distinct (map fst S)"
  shows "distinct (map fst S') \<and> acyclic (edges S')"
proof -
  from assms(1) obtain st where st: "map_of S t = Some st"
    by (auto simp: connect_def mouseup_newConnection_def split: option.splits)
  from assms(1,2) st have fresh: "indexOf (incoming_connections st) s = None"
    by (auto simp: connect_def mouseup_newConnection_def split: if_splits outcome.splits)
  from assms(1) st fresh obtain b S1 where will: "willCreateCycle S s t = Return b S1"
    by (auto simp: connect_def mouseup_newConnection_def split: outcome.splits)
  from assms(1,2) st fresh will have nocycle: "\<not> b"
    by (auto simp: connect_def mouseup_newConnection_def Let_def split: if_splits outcome.splits)
  from assms(1) st fresh will nocycle obtain u where
    make: "makeConnection S1 s t = Return u S'"
    by (auto simp: connect_def mouseup_newConnection_def Let_def split: outcome.splits)
  from willCreateCycle_Return [OF will] nocycle have f1: "forget_outgoing S1 = forget_outgoing S"
    and acyc: "acyclic (insert (s, t) (incoming_rel S))"
    by simp_all
  from makeConnection_Return [OF make] have k: "map fst S' = map fst S1"
    and sub: "incoming_rel S' \<subseteq> insert (s, t) (incoming_rel S1)"
    by simp_all
  have d: "distinct (map fst S')"
    using k forget_outgoing_keys [OF f1] assms(3) by simp
  have "incoming_rel S' \<subseteq> insert (s, t) (incoming_rel S)"
    using sub forget_outgoing_incoming_rel [OF f1] by simp
  from acyclic_subset [OF acyc this] have "acyclic (edges S')"
    by (simp add: incoming_rel_edges [OF d])
  with d show ?thesis by simp
qed

subsection \<open>The number of calls\<close>

lemma dfs_calls_bound:
  "u \<in> set (fst sets) \<Longrightarrow>
     dfsWithSets_frames (+) S u sets + white_left (dfsWithSets S u sets) \<le> length (fst sets)"
  "dfs_children_frames (+) S u cs sets + white_left (dfs_children S u cs sets) \<le> length (fst sets)"
proof (induction S u sets and S u cs sets rule: dfsWithSets_dfs_children.induct)
  case (1 S step_uuid whiteSet greySet)
  then have lt: "length (set_delete step_uuid whiteSet) < length whiteSet"
    by (simp add: set_delete_def length_removeAll_less)
  show ?case
  proof (cases "map_of S step_uuid")
    case None
    with lt show ?thesis
      by (simp add: dfsWithSets_frames.simps dfsWithSets.simps white_left_def)
  next
    case (Some st)
    show ?thesis
    proof (cases "outgoing_connections st")
      case None
      with Some lt show ?thesis
        by (simp add: dfsWithSets_frames.simps dfsWithSets.simps white_left_def)
    next
      case (Some out)
      from "1.IH" [OF \<open>map_of S step_uuid = Some st\<close> Some] lt
        \<open>map_of S step_uuid = Some st\<close> Some
      show ?thesis
        by (simp add: dfsWithSets_frames.simps dfsWithSets.simps)
    qed
  qed
next
  case (2 S step_uuid whiteSet greySet)
  show ?case by (simp add: white_left_def)
next
  case (3 S step_uuid child_uuid rest whiteSet greySet)
  show ?case
  proof (cases "child_uuid \<in> set whiteSet")
    case True
    have IH1: "dfsWithSets_frames (+) S child_uuid (whiteSet, greySet) +
        white_left (dfsWithSets S child_uuid (whiteSet, greySet)) \<le> length whiteSet"
      using "3.IH"(1) [OF True] True by simp
    show ?thesis
    proof (cases "dfsWithSets S child_uuid (whiteSet, greySet)")
      case (Inl e)
      with True IH1 show ?thesis by (simp add: white_left_def)
    next
      case (Inr r)
      obtain f w1 g1 where r: "r = (f, w1, g1)" by (cases r)
      show ?thesis
      proof (cases f)
        case True
        with \<open>child_uuid \<in> set whiteSet\<close> IH1 Inr r show ?thesis
          by (simp add: white_left_def)
      next
        case False
        from "3.IH"(2) [OF \<open>child_uuid \<in> set whiteSet\<close> Inr [unfolded r] refl False]
          \<open>child_uuid \<in> set whiteSet\<close> IH1 Inr r False
        show ?thesis by (simp add: white_left_def)
      qed
    qed
  next
    case False
    with "3.IH"(3) show ?thesis
      by (cases "child_uuid \<in> set greySet") (simp_all add: white_left_def)
  qed
qed

lemma dfs_depth_le_calls:
  "dfsWithSets_frames max S u sets \<le> dfsWithSets_frames (+) S u sets"
  "dfs_children_frames max S u cs sets \<le> dfs_children_frames (+) S u cs sets"
proof (induction S u sets and S u cs sets rule: dfsWithSets_dfs_children.induct)
  case (1 S step_uuid whiteSet greySet)
  then show ?case
    by (simp add: dfsWithSets_frames.simps split: option.splits)
next
  case (2 S step_uuid whiteSet greySet)
  show ?case by simp
next
  case (3 S step_uuid child_uuid rest whiteSet greySet)
  show ?case
  proof (cases "child_uuid \<in> set whiteSet")
    case True
    note IH1 = "3.IH"(1) [OF True]
    show ?thesis
    proof (cases "dfsWithSets S child_uuid (whiteSet, greySet)")
      case (Inl e)
      with True IH1 show ?thesis by simp
    next
      case (Inr r)
      obtain f sets' where r: "r = (f, sets')" by (cases r)
      show ?thesis
      proof (cases f)
        case True
        with \<open>child_uuid \<in> set whiteSet\<close> IH1 Inr r show ?thesis by simp
      next
        case False
        from "3.IH"(2) [OF \<open>child_uuid \<in> set whiteSet\<close> Inr [unfolded r] refl False]
          \<open>child_uuid \<in> set whiteSet\<close> IH1 Inr r False
        show ?thesis by simp
      qed
    qed
  next
    case False
    with "3.IH"(3) show ?thesis
      by (cases "child_uuid \<in> set greySet") simp_all
  qed
qed

lemma whileWhite_calls_bound: "whileWhite_frames (+) S sets \<le> length (fst sets)"
proof (induction "(+) :: nat \<Rightarrow> nat \<Rightarrow> nat" S sets rule: whileWhite_frames.induct)
  case (1 S whiteSet greySet)
  show ?case
  proof (cases whiteSet)
    case Nil
    then show ?thesis by (simp add: whileWhite_frames.simps)
  next
    case (Cons u us)
    then have "u \<in> set (fst (whiteSet, greySet))" by simp
    note b = dfs_calls_bound(1) [OF this, of S]
    show ?thesis
    proof (cases "dfsWithSets S u (whiteSet, greySet)")
      case (Inl e)
      with Cons b show ?thesis by (simp add: whileWhite_frames.simps white_left_def)
    next
      case (Inr r)
      obtain f sets' where r: "r = (f, sets')" by (cases r)
      from "1.hyps" [OF Cons Inr [unfolded r] refl] Cons b Inr r show ?thesis
        by (simp add: whileWhite_frames.simps white_left_def)
    qed
  qed
qed

lemma whileWhite_depth_le_calls: "whileWhite_frames max S sets \<le> whileWhite_frames (+) S sets"
proof (induction "(+) :: nat \<Rightarrow> nat \<Rightarrow> nat" S sets rule: whileWhite_frames.induct)
  case (1 S whiteSet greySet)
  show ?case
  proof (cases whiteSet)
    case Nil
    then show ?thesis by (simp add: whileWhite_frames.simps)
  next
    case (Cons u us)
    note d = dfs_depth_le_calls(1) [of S u "(whiteSet, greySet)"]
    show ?thesis
    proof (cases "dfsWithSets S u (whiteSet, greySet)")
      case (Inl e)
      with Cons d show ?thesis by (simp add: whileWhite_frames.simps)
    next
      case (Inr r)
      obtain f sets' where r: "r = (f, sets')" by (cases r)
      from "1.hyps" [OF Cons Inr [unfolded r] refl] Cons d Inr r show ?thesis
        by (simp add: whileWhite_frames.simps)
    qed
  qed
qed

lemma build_outgoing_length:
  "build_outgoing ks T = Return u T' \<Longrightarrow> length T' = length T"
  using build_outgoing_Return [of ks T T'] forget_outgoing_keys [of T' T]
  by (metis length_map old.unit.exhaust)

lemma willCreateCycle_calls_bound:
  "willCreateCycle_depth S s t \<le> willCreateCycle_calls S s t \<and>
   willCreateCycle_calls S s t \<le> length S"
proof (cases "map_of S t")
  case None
  then show ?thesis
    by (simp add: willCreateCycle_calls_def willCreateCycle_depth_def willCreateCycle_frames_def)
next
  case (Some endStep)
  define S2 where "S2 = reset_outgoing (AList.update t
    (endStep\<lparr>incoming_connections := incoming_connections endStep @ [s]\<rparr>) S)"
  have "map fst (reset_outgoing X) = map fst X" for X
    unfolding reset_outgoing_def by (rule map_fst_map_entries)
  then have "map fst S2 = map fst S"
    using lookup_key [OF Some] by (simp add: S2_def update_keys)
  then have len2: "length S2 = length S"
    by (metis length_map)
  show ?thesis
  proof (cases "build_outgoing (map fst S2) S2")
    case (Throw e S3)
    with Some show ?thesis
      by (simp add: willCreateCycle_calls_def willCreateCycle_depth_def
          willCreateCycle_frames_def Let_def S2_def)
  next
    case (Return u S3)
    from whileWhite_calls_bound [of S3 "(map fst S3, [])"] build_outgoing_length [OF Return] len2
    have "whileWhite_frames (+) S3 (map fst S3, []) \<le> length S" by simp
    with Some Return whileWhite_depth_le_calls [of S3 "(map fst S3, [])"] show ?thesis
      by (simp add: willCreateCycle_calls_def willCreateCycle_depth_def
          willCreateCycle_frames_def Let_def S2_def)
  qed
qed

subsection \<open>Deleting a step\<close>





lemma strip_connection_changes:
  "u \<in> set (incoming_connections st) \<Longrightarrow> strip_connection u st \<noteq> st"
proof
  assume u: "u \<in> set (incoming_connections st)" and eq: "strip_connection u st = st"
  from u have "0 < length (incoming_connections st)"
    by (rule length_pos_if_in_set)
  moreover from arg_cong [OF eq, of "\<lambda>s. length (incoming_connections s)"] u
  have "length (incoming_connections st) - 1 = length (incoming_connections st)"
    by (simp add: strip_connection_remove1 length_remove1)
  ultimately show False by arith
qed

lemma strip_connection_id:
  "u \<notin> set (incoming_connections st) \<Longrightarrow> strip_connection u st = st"
  by (simp add: strip_connection_remove1 remove1_idem)

lemma cascade_step:
  assumes "map_of S key = Some st" and "indexOf (incoming_connections st) u = Some i"
  shows "AList.update key (st\<lparr>incoming_connections := splice1 i (incoming_connections st)\<rparr>) S =
      AList.update key (strip_connection u st) S"
    and "u \<in> set (incoming_connections st)"
proof -
  show "AList.update key (st\<lparr>incoming_connections := splice1 i (incoming_connections st)\<rparr>) S =
      AList.update key (strip_connection u st) S"
    using assms by (simp add: strip_connection_def)
  show "u \<in> set (incoming_connections st)"
    using assms(2) indexOf_None_iff [of "incoming_connections st" u] by auto
qed

lemma update_existing_keys: "map_of S key = Some st \<Longrightarrow> map fst (AList.update key v S) = map fst S"
  using lookup_key [of S key st] by (simp add: update_keys)


lemma cascade_loop_result:
  assumes "distinct ks"
  shows "\<exists>r S' C'. cascade_loop u ks S C = (r, C') \<and>
           (r = Return () S' \<or> r = Throw TypeError S') \<and>
           map fst S' = map fst S \<and>
           (\<forall>k. map_of S' k = map_of S k \<or>
                (k \<in> set ks \<and> map_of S' k = map_option (strip_connection u) (map_of S k)))"
  using assms
proof (induction ks arbitrary: S C)
  case Nil
  then show ?case by simp
next
  case (Cons key ks)
  show ?case
  proof (cases "map_of S key")
    case None
    then show ?thesis by simp
  next
    case (Some st)
    show ?thesis
    proof (cases "indexOf (incoming_connections st) u")
      case None
      from Cons.IH [of S C] Cons.prems obtain r S' C' where
        "cascade_loop u ks S C = (r, C')" "r = Return () S' \<or> r = Throw TypeError S'"
        "map fst S' = map fst S"
        "\<forall>k. map_of S' k = map_of S k \<or>
          (k \<in> set ks \<and> map_of S' k = map_option (strip_connection u) (map_of S k))"
        by auto
      with Some None show ?thesis
        by (intro exI [of _ r] exI [of _ S'] exI [of _ C']) auto
    next
      case (Some i)
      let ?S1 = "AList.update key (strip_connection u st) S"
      let ?conn = "getConnectionByUUIDs C u (uuid st)"
      let ?C1 = "splice_indexOf C ?conn"
      note step = cascade_step [OF \<open>map_of S key = Some st\<close> Some]
      have keys1: "map fst ?S1 = map fst S"
        by (rule update_existing_keys [OF \<open>map_of S key = Some st\<close>])
      have look1: "map_of ?S1 k = (if k = key then Some (strip_connection u st) else map_of S k)" for k
        by (simp add: update_conv')
      show ?thesis
      proof (cases ?conn)
        case None
        have "cascade_loop u (key # ks) S C = (Throw TypeError ?S1, ?C1)"
          using \<open>map_of S key = Some st\<close> Some None step(1) by (simp add: Let_def)
        with keys1 look1 \<open>map_of S key = Some st\<close> show ?thesis
          by (intro exI [of _ "Throw TypeError ?S1"] exI [of _ ?S1] exI [of _ ?C1]) auto
      next
        case (Some c)
        from Cons.IH [of ?S1 ?C1] Cons.prems obtain r S' C' where
          rec: "cascade_loop u ks ?S1 ?C1 = (r, C')" and r: "r = Return () S' \<or> r = Throw TypeError S'"
          and k: "map fst S' = map fst ?S1"
          and l: "\<forall>k. map_of S' k = map_of ?S1 k \<or>
            (k \<in> set ks \<and> map_of S' k = map_option (strip_connection u) (map_of ?S1 k))"
          by auto
        have "cascade_loop u (key # ks) S C = (r, C')"
          using \<open>map_of S key = Some st\<close> \<open>indexOf (incoming_connections st) u = Some i\<close>
            Some step(1) rec
          by (simp add: Let_def)
        moreover have "\<forall>k. map_of S' k = map_of S k \<or>
            (k \<in> set (key # ks) \<and> map_of S' k = map_option (strip_connection u) (map_of S k))"
        proof
          fix k
          from Cons.prems have "key \<notin> set ks" by simp
          with l [rule_format, of k] look1 [of k] \<open>map_of S key = Some st\<close>
          show "map_of S' k = map_of S k \<or>
            (k \<in> set (key # ks) \<and> map_of S' k = map_option (strip_connection u) (map_of S k))"
            by (cases "k = key") auto
        qed
        ultimately show ?thesis using r k keys1
          by (intro exI [of _ r] exI [of _ S'] exI [of _ C']) auto
      qed
    qed
  qed
qed

lemma cascade_loop_unreferenced:
  assumes "set ks \<subseteq> fst ` set S"
    and "\<forall>k st. map_of S k = Some st \<longrightarrow> u \<notin> set (incoming_connections st)"
  shows "cascade_loop u ks S C = (Return () S, C)"
  using assms
proof (induction ks)
  case Nil
  then show ?case by simp
next
  case (Cons key ks)
  from Cons.prems(1) key_lookup [of key S] obtain st where st: "map_of S key = Some st"
    by auto
  with Cons.prems(2) have "indexOf (incoming_connections st) u = None"
    by (simp add: indexOf_None_iff)
  with st Cons show ?case by simp
qed

lemma cascade_loop_changed:
  assumes "distinct ks" and "set ks \<subseteq> fst ` set S"
    and "\<exists>k \<in> set ks. \<exists>st. map_of S k = Some st \<and> u \<in> set (incoming_connections st)"
    and "cascade_loop u ks S C = (r, C')"
    and "r = Return () S' \<or> r = Throw TypeError S'"
  shows "\<exists>k st. map_of S k = Some st \<and> u \<in> set (incoming_connections st) \<and>
           map_of S' k = Some (strip_connection u st)"
  using assms
proof (induction ks arbitrary: S C)
  case Nil
  then show ?case by simp
next
  case (Cons key ks)
  from Cons.prems(2) key_lookup [of key S] obtain st where st: "map_of S key = Some st"
    by auto
  show ?case
  proof (cases "indexOf (incoming_connections st) u")
    case None
    then have "u \<notin> set (incoming_connections st)"
      by (simp add: indexOf_None_iff)
    with Cons.prems(3) st have
      ex: "\<exists>k \<in> set ks. \<exists>st. map_of S k = Some st \<and> u \<in> set (incoming_connections st)"
      by auto
    from Cons.prems(4) st None have "cascade_loop u ks S C = (r, C')" by simp
    from Cons.IH [OF _ _ ex this Cons.prems(5)] Cons.prems(1,2) show ?thesis by simp
  next
    case (Some i)
    let ?S1 = "AList.update key (strip_connection u st) S"
    let ?conn = "getConnectionByUUIDs C u (uuid st)"
    let ?C1 = "splice_indexOf C ?conn"
    note step = cascade_step [OF st Some]
    show ?thesis
    proof (cases ?conn)
      case None
      with Cons.prems(4) st Some step(1) have "r = Throw TypeError ?S1"
        by (simp add: Let_def)
      with Cons.prems(5) have "S' = ?S1" by auto
      with st step(2) show ?thesis
        by (intro exI [of _ key] exI [of _ st]) (simp add: update_conv')
    next
      case (Some c)
      with Cons.prems(4) st \<open>indexOf (incoming_connections st) u = Some i\<close> step(1)
      have rec: "cascade_loop u ks ?S1 ?C1 = (r, C')"
        by (simp add: Let_def)
      from Cons.prems(1) have d: "distinct ks" and notin: "key \<notin> set ks" by simp_all
      from cascade_loop_result [OF d, of u ?S1 ?C1] rec obtain S'' where
        r: "r = Return () S'' \<or> r = Throw TypeError S''"
        and l: "\<forall>k. map_of S'' k = map_of ?S1 k \<or>
            (k \<in> set ks \<and> map_of S'' k = map_option (strip_connection u) (map_of ?S1 k))"
        by auto
      from r Cons.prems(5) have "S'' = S'" by auto
      with l [rule_format, of key] notin have "map_of S' key = Some (strip_connection u st)"
        by (simp add: update_conv')
      with st step(2) show ?thesis by blast
    qed
  qed
qed



text \<open>
  Without the wrapper of a connection the call throws: \<open>B\<close> lists \<open>D\<close>, for which
  nothing is drawn, and \<^verbatim>\<open>deleteStep(B)\<close> stops in its second loop, before the
  \<^verbatim>\<open>delete\<close>, with the last wrapper spliced out of \<^verbatim>\<open>this.connections\<close>.
\<close>

lemma deleteStep_wrapper_missing:
  "deleteStep dangling_D [ConnectionDOMWrapper (Some ''A'') (Some ''B'')] ''B'' =
     (Throw TypeError dangling_D, [])"
  by (simp add: deleteStep_def dangling_D_def example_step_def splice_indexOf_def)

subsection \<open>Validation, encoding and decoding\<close>

lemma otherStep_loop_None:
  "otherStep_loop st S = None \<longleftrightarrow>
     (\<forall>other \<in> snd ` set S. uuid st = uuid other \<or> file_path other \<noteq> file_path st)"
  by (induction st S rule: otherStep_loop.induct) auto

lemma otherStep_loop_first:
  "otherStep_loop st S = Some other \<Longrightarrow>
     \<exists>pre key post. S = pre @ (key, other) # post \<and>
       (\<forall>p \<in> snd ` set pre. uuid st = uuid p \<or> file_path p \<noteq> file_path st) \<and>
       uuid st \<noteq> uuid other \<and> file_path other = file_path st"
proof (induction st S rule: otherStep_loop.induct)
  case (1 st)
  then show ?case by simp
next
  case (2 st otherStepKey otherStep rest)
  show ?case
  proof (cases "uuid st \<noteq> uuid otherStep \<and> file_path otherStep = file_path st")
    case True
    with "2.prems" have "other = otherStep" by simp
    with True show ?thesis
      by (intro exI [of _ "[]"] exI [of _ otherStepKey] exI [of _ rest]) simp
  next
    case False
    with "2.prems" have rec: "otherStep_loop st rest = Some other"
      by (auto split: if_splits)
    have "\<exists>pre key post. rest = pre @ (key, other) # post \<and>
       (\<forall>p \<in> snd ` set pre. uuid st = uuid p \<or> file_path p \<noteq> file_path st) \<and>
       uuid st \<noteq> uuid other \<and> file_path other = file_path st"
    proof (cases "uuid st = uuid otherStep")
      case True
      from "2.IH"(1) [OF True rec] show ?thesis .
    next
      case ne: False
      with False have "file_path otherStep \<noteq> file_path st" by simp
      from "2.IH"(2) [OF ne this rec] show ?thesis .
    qed
    then obtain pre key post where rest: "rest = pre @ (key, other) # post"
      and pre: "\<forall>p \<in> snd ` set pre. uuid st = uuid p \<or> file_path p \<noteq> file_path st"
      and other: "uuid st \<noteq> uuid other" "file_path other = file_path st"
      by blast
    from pre False have
      "\<forall>p \<in> snd ` set ((otherStepKey, otherStep) # pre). uuid st = uuid p \<or> file_path p \<noteq> file_path st"
      by auto
    with rest other show ?thesis
      by (intro exI [of _ "(otherStepKey, otherStep) # pre"] exI [of _ key] exI [of _ post]) simp
  qed
qed

lemma outerLoop_first:
  "(outerLoop ext S rest = \<lparr>valid = True, errors = []\<rparr> \<and>
      (\<forall>st \<in> snd ` set rest. \<forall>other. \<not> shares_notebook ext S st other)) \<or>
   (\<exists>pre key st post other. rest = pre @ (key, st) # post \<and>
      (\<forall>p \<in> snd ` set pre. \<forall>other. \<not> shares_notebook ext S p other) \<and>
      ext (file_path st) = ''ipynb'' \<and> otherStep_loop st S = Some other \<and>
      outerLoop ext S rest = \<lparr>valid = False, errors = [notebook_error st other]\<rparr>)"
proof (induction rest)
  case Nil
  then show ?case by simp
next
  case (Cons p rest)
  obtain key st where p: "p = (key, st)" by (cases p)
  show ?case
  proof (cases "ext (file_path st) = ''ipynb'' \<and> otherStep_loop st S \<noteq> None")
    case True
    then obtain other where other: "otherStep_loop st S = Some other" by auto
    with True p have "outerLoop ext S (p # rest) = \<lparr>valid = False, errors = [notebook_error st other]\<rparr>"
      by simp
    with True other p have "\<exists>pre key st post other. p # rest = pre @ (key, st) # post \<and>
      (\<forall>p \<in> snd ` set pre. \<forall>other. \<not> shares_notebook ext S p other) \<and>
      ext (file_path st) = ''ipynb'' \<and> otherStep_loop st S = Some other \<and>
      outerLoop ext S (p # rest) = \<lparr>valid = False, errors = [notebook_error st other]\<rparr>"
      by (intro exI [of _ "[]"] exI [of _ key] exI [of _ st] exI [of _ rest] exI [of _ other]) simp
    then show ?thesis ..
  next
    case False
    then have none: "\<forall>other. \<not> shares_notebook ext S st other"
      by (auto simp: shares_notebook_def otherStep_loop_None)
    from False p have step: "outerLoop ext S (p # rest) = outerLoop ext S rest"
      by (cases "otherStep_loop st S") auto
    from Cons.IH show ?thesis
    proof
      assume "outerLoop ext S rest = \<lparr>valid = True, errors = []\<rparr> \<and>
        (\<forall>st \<in> snd ` set rest. \<forall>other. \<not> shares_notebook ext S st other)"
      with step none p show ?thesis by auto
    next
      assume "\<exists>pre key st post other. rest = pre @ (key, st) # post \<and>
        (\<forall>p \<in> snd ` set pre. \<forall>other. \<not> shares_notebook ext S p other) \<and>
        ext (file_path st) = ''ipynb'' \<and> otherStep_loop st S = Some other \<and>
        outerLoop ext S rest = \<lparr>valid = False, errors = [notebook_error st other]\<rparr>"
      then obtain pre key' st' post other where rest: "rest = pre @ (key', st') # post"
        and pre: "\<forall>p \<in> snd ` set pre. \<forall>other. \<not> shares_notebook ext S p other"
        and st': "ext (file_path st') = ''ipynb''" "otherStep_loop st' S = Some other"
        and out: "outerLoop ext S rest = \<lparr>valid = False, errors = [notebook_error st' other]\<rparr>"
        by blast
      from pre none p have "\<forall>q \<in> snd ` set (p # pre). \<forall>other. \<not> shares_notebook ext S q other"
        by auto
      with rest st' out step have "\<exists>pre key st post other. p # rest = pre @ (key, st) # post \<and>
        (\<forall>p \<in> snd ` set pre. \<forall>other. \<not> shares_notebook ext S p other) \<and>
        ext (file_path st) = ''ipynb'' \<and> otherStep_loop st S = Some other \<and>
        outerLoop ext S (p # rest) = \<lparr>valid = False, errors = [notebook_error st other]\<rparr>"
        by (intro exI [of _ "p # pre"] exI [of _ key'] exI [of _ st'] exI [of _ post]
            exI [of _ other]) simp
      then show ?thesis ..
    qed
  qed
qed

lemma remove_private_fold:
  "fold (\<lambda>key md'. if is_private key then AList.delete key md' else md') ks md =
     filter (\<lambda>(key, v). \<not> (is_private key \<and> key \<in> set ks)) md"
proof (induction ks arbitrary: md)
  case Nil
  then show ?case by simp
next
  case (Cons k ks)
  show ?case
    by (auto simp: Cons.IH AList.delete_eq intro!: filter_cong)
qed

lemma remove_private_filter: "remove_private md = filter (\<lambda>(key, v). \<not> is_private key) md"
  unfolding remove_private_def remove_private_fold
  by (rule filter_cong) force+

lemma map_of_remove_private:
  "map_of (remove_private md) key = (if is_private key then None else map_of md key)"
  unfolding remove_private_filter by (induction md) auto

lemma encode_steps_keyed:
  assumes "distinct (map fst S)" "keyed_by_uuid S" "fst ` set acc \<inter> fst ` set S = {}"
  shows "encode_steps S acc = acc @ map (\<lambda>(key, st). (key, encode_step st)) S"
  using assms
proof (induction S arbitrary: acc)
  case Nil
  then show ?case by simp
next
  case (Cons p S)
  obtain key st where p: "p = (key, st)" by (cases p)
  from Cons.prems p have u: "uuid (encode_step st) = key"
    by (simp add: keyed_by_uuid_def encode_step_def)
  from Cons.prems p have notin: "key \<notin> fst ` set acc" by auto
  have upd: "AList.update key (encode_step st) acc = acc @ [(key, encode_step st)]"
    using notin by (induction acc) auto
  have "encode_steps S (acc @ [(key, encode_step st)]) =
      (acc @ [(key, encode_step st)]) @ map (\<lambda>(key, st). (key, encode_step st)) S"
    using Cons.prems p by (intro Cons.IH) (auto simp: keyed_by_uuid_def)
  then show ?case using p u upd by simp
qed

lemma decode_steps_fresh:
  assumes "distinct (map fst D)" "fst ` set acc \<inter> fst ` set D = {}"
  shows "decode_steps D acc = acc @ map (\<lambda>(key, st). (key, init_runtime st)) D"
  using assms
proof (induction D arbitrary: acc)
  case Nil
  then show ?case by simp
next
  case (Cons p D)
  obtain key st where p: "p = (key, st)" by (cases p)
  from Cons.prems p have notin: "key \<notin> fst ` set acc" by auto
  have upd: "AList.update key (init_runtime st) acc = acc @ [(key, init_runtime st)]"
    using notin by (induction acc) auto
  have "decode_steps D (acc @ [(key, init_runtime st)]) =
      (acc @ [(key, init_runtime st)]) @ map (\<lambda>(key, st). (key, init_runtime st)) D"
    using Cons.prems p by (intro Cons.IH) auto
  then show ?case using p upd by simp
qed

subsection \<open>The example pipelines\<close>

lemma acyclic_empty: "acyclic {}"
  by (simp add: acyclic_def)

lemmas eval_defs = connect_def mouseup_newConnection_def willCreateCycle_def Let_def
  reset_outgoing_def makeConnection_def splice1_def set_delete_def set_add_def
  dfsWithSets.simps whileWhite.simps

lemma two_components_wf: "wf_graph two_components"
  by (simp add: wf_graph_def two_components_def example_step_def)

lemma two_components_acyclic: "acyclic (edges two_components)"
  by (simp add: edges_def two_components_def example_step_def acyclic_empty)

section \<open>The claims\<close>

text \<open>
  C1 (acyclicity invariant): starting from an acyclic graph, after every sequence of
  connect operations each of which succeeds, no step reaches itself along the
  \<^verbatim>\<open>incoming_connections\<close>.
\<close>

theorem connect_all_acyclic:
  assumes "distinct (map fst S)"
    and "acyclic (edges S)"
    and "connect_all S ops = Some S'"
  shows "acyclic (edges S')"
  using assms
proof (induction ops arbitrary: S)
  case Nil
  then show ?case by simp
next
  case (Cons op ops)
  obtain s t where op: "op = (s, t)" by (cases op)
  from Cons.prems(3) op obtain r S1 where c: "connect S s t = Return r S1" "connected r"
    and rest: "connect_all S1 ops = Some S'"
    by (auto split: outcome.splits if_splits)
  from connect_success [OF c Cons.prems(1)] have "distinct (map fst S1)" "acyclic (edges S1)"
    by simp_all
  from Cons.IH [OF this rest] show ?case .
qed

theorem connect_all_acyclic_witness:
  "distinct (map fst three_steps) \<and> acyclic (edges three_steps) \<and>
   (\<exists>S'. connect_all three_steps [(''A'', ''B''), (''B'', ''C'')] = Some S' \<and>
      acyclic (edges S') \<and>
      map_option incoming_connections (map_of S' ''A'') = Some [] \<and>
      map_option incoming_connections (map_of S' ''B'') = Some [''A''] \<and>
      map_option incoming_connections (map_of S' ''C'') = Some [''B'']) \<and>
   connect_all three_steps [(''A'', ''B''), (''B'', ''C''), (''C'', ''A'')] = None"
proof -
  have h1: "distinct (map fst three_steps)"
    by (simp add: three_steps_def)
  have h2: "acyclic (edges three_steps)"
    by (simp add: edges_def three_steps_def example_step_def acyclic_empty)
  have "\<exists>S'. connect_all three_steps [(''A'', ''B''), (''B'', ''C'')] = Some S' \<and>
      map_option incoming_connections (map_of S' ''A'') = Some [] \<and>
      map_option incoming_connections (map_of S' ''B'') = Some [''A''] \<and>
      map_option incoming_connections (map_of S' ''C'') = Some [''B'']"
    by (simp add: eval_defs three_steps_def example_step_def)
  then obtain S' where h3: "connect_all three_steps [(''A'', ''B''), (''B'', ''C'')] = Some S'"
    and inc: "map_option incoming_connections (map_of S' ''A'') = Some []"
      "map_option incoming_connections (map_of S' ''B'') = Some [''A'']"
      "map_option incoming_connections (map_of S' ''C'') = Some [''B'']"
    by blast
  have n: "connect_all three_steps [(''A'', ''B''), (''B'', ''C''), (''C'', ''A'')] = None"
    by (simp add: eval_defs three_steps_def example_step_def)
  from connect_all_acyclic [OF h1 h2 h3] h1 h2 h3 inc n
  show ?thesis by blast
qed

text \<open>
  C2: on a well-formed graph and for existing steps, \<^verbatim>\<open>willCreateCycle\<close> returns, and it
  returns \<^verbatim>\<open>true\<close> exactly when the graph with the connection from source to target
  added has a cycle, wherever the cycle lies: the search goes on until no step is white.
  In the example the cycle is in the component that the first step enumerated does not
  reach.
\<close>

theorem willCreateCycle_iff_cycle:
  assumes "wf_graph S"
    and "sourceUuid \<in> set (map fst S)"
    and "targetUuid \<in> set (map fst S)"
  shows "\<exists>b S'. willCreateCycle S sourceUuid targetUuid = Return b S' \<and>
           (b \<longleftrightarrow> \<not> acyclic (insert (sourceUuid, targetUuid) (edges S)))"
proof -
  from willCreateCycle_total [OF wf_graph_refs [OF assms(1)], of sourceUuid targetUuid] assms(2,3)
  obtain b S' where ret: "willCreateCycle S sourceUuid targetUuid = Return b S'"
    by auto
  from willCreateCycle_Return [OF ret] wf_graph_edges [OF assms(1)] ret show ?thesis
    by simp
qed

theorem willCreateCycle_iff_cycle_witness:
  "wf_graph two_components \<and> ''B'' \<in> set (map fst two_components) \<and>
   ''A'' \<in> set (map fst two_components) \<and>
   (\<exists>S'. willCreateCycle two_components ''B'' ''A'' = Return True S')"
proof -
  have h2: "''B'' \<in> set (map fst two_components)" and h3: "''A'' \<in> set (map fst two_components)"
    by (simp_all add: two_components_def)
  have "(''A'', ''B'') \<in> (edges two_components)\<^sup>*"
    by (auto simp: edges_def two_components_def example_step_def)
  then have "\<not> acyclic (insert (''B'', ''A'') (edges two_components))"
    by simp
  with willCreateCycle_iff_cycle [OF two_components_wf h2 h3] two_components_wf h2 h3
  show ?thesis by auto
qed

text \<open>
  C3: with \<open>A\<close> among the \<^verbatim>\<open>incoming_connections\<close> of \<open>B\<close> in a well-formed acyclic graph,
  \<^verbatim>\<open>willCreateCycle(B, A)\<close> returns \<^verbatim>\<open>true\<close> and connecting \<open>B\<close> to \<open>A\<close> raises the cycle
  alert and makes no connection. The check is not free of effects on the steps: it leaves
  in every step the \<^verbatim>\<open>outgoing_connections\<close> it has built, the connection asked about
  included. Everything else, the \<^verbatim>\<open>incoming_connections\<close> above all, is as before,
  whether a cycle was found or not.
\<close>

theorem cycle_rejected_incoming_unchanged:
  assumes "wf_graph S"
    and "acyclic (edges S)"
    and "map_of S A = Some stA"
    and "map_of S B = Some stB"
    and "A \<in> set (incoming_connections stB)"
  shows "(\<exists>S'. willCreateCycle S B A = Return True S' \<and>
           connect S B A = Return (MouseUp [cycle_alert] False) S' \<and>
           forget_outgoing S' = forget_outgoing S \<and>
           map_option incoming_connections (map_of S' A) = Some (incoming_connections stA) \<and>
           map_option incoming_connections (map_of S' B) = Some (incoming_connections stB)) \<and>
         (\<forall>s t b S'. willCreateCycle S s t = Return b S' \<longrightarrow>
            forget_outgoing S' = forget_outgoing S)"
proof -
  have e: "incoming_rel S = edges S"
    by (rule wf_graph_edges [OF assms(1)])
  have AB: "(A, B) \<in> edges S"
    using assms(4,5) unfolding e [symmetric] by (auto simp: incoming_rel_def)
  have "(B, A) \<notin> edges S"
  proof
    assume "(B, A) \<in> edges S"
    with AB have "(A, A) \<in> (edges S)\<^sup>+" by (blast intro: trancl.intros)
    with assms(2) show False by (simp add: acyclic_def)
  qed
  with assms(3) have fresh: "B \<notin> set (incoming_connections stA)"
    unfolding e [symmetric] by (auto simp: incoming_rel_def)
  from willCreateCycle_total [OF wf_graph_refs [OF assms(1)], of B A]
    lookup_key [OF assms(3)] lookup_key [OF assms(4)]
  obtain b S' where will: "willCreateCycle S B A = Return b S'"
    by blast
  from AB have "(A, A) \<in> (insert (B, A) (edges S))\<^sup>+"
    by (blast intro: trancl.intros)
  then have "\<not> acyclic (insert (B, A) (edges S))"
    by (auto simp: acyclic_def)
  with willCreateCycle_Return [OF will] e have b: "b" and f: "forget_outgoing S' = forget_outgoing S"
    by simp_all
  from forget_outgoing_incoming [OF f] assms(3,4)
  have inc: "map_option incoming_connections (map_of S' A) = Some (incoming_connections stA)"
    "map_option incoming_connections (map_of S' B) = Some (incoming_connections stB)"
    by simp_all
  have "connect S B A = Return (MouseUp [cycle_alert] False) S'"
    using assms(3) fresh will b
    by (simp add: connect_def mouseup_newConnection_def indexOf_None_iff)
  with will b f inc
  have 1: "\<exists>S'. willCreateCycle S B A = Return True S' \<and>
           connect S B A = Return (MouseUp [cycle_alert] False) S' \<and>
           forget_outgoing S' = forget_outgoing S \<and>
           map_option incoming_connections (map_of S' A) = Some (incoming_connections stA) \<and>
           map_option incoming_connections (map_of S' B) = Some (incoming_connections stB)"
    by (intro exI [of _ S']) simp
  have 2: "\<forall>s t b S'. willCreateCycle S s t = Return b S' \<longrightarrow>
      forget_outgoing S' = forget_outgoing S"
    using willCreateCycle_Return by blast
  from 1 2 show ?thesis ..
qed

theorem cycle_rejected_incoming_unchanged_witness:
  "wf_graph two_components \<and> acyclic (edges two_components) \<and>
   map_of two_components ''A'' = Some (example_step ''A'' ''a.py'' []) \<and>
   map_of two_components ''B'' = Some (example_step ''B'' ''b.py'' [''A'']) \<and>
   ''A'' \<in> set (incoming_connections (example_step ''B'' ''b.py'' [''A''])) \<and>
   (\<exists>S'. connect two_components ''B'' ''A'' = Return (MouseUp [cycle_alert] False) S' \<and>
      map_option incoming_connections (map_of S' ''A'') = Some [] \<and>
      map_option incoming_connections (map_of S' ''B'') = Some [''A'']) \<and>
   forget_outgoing two_components_checked = forget_outgoing two_components"
proof -
  have a: "map_of two_components ''A'' = Some (example_step ''A'' ''a.py'' [])"
    and b: "map_of two_components ''B'' = Some (example_step ''B'' ''b.py'' [''A''])"
    by (simp_all add: two_components_def)
  have ab: "''A'' \<in> set (incoming_connections (example_step ''B'' ''b.py'' [''A'']))"
    by (simp add: example_step_def)
  have ia: "incoming_connections (example_step ''A'' ''a.py'' []) = []"
    and ib: "incoming_connections (example_step ''B'' ''b.py'' [''A'']) = [''A'']"
    by (simp_all add: example_step_def)
  have will: "willCreateCycle two_components ''B'' ''A'' = Return True two_components_checked"
    by (simp add: eval_defs two_components_def two_components_checked_def example_step_def)
  note inst = cycle_rejected_incoming_unchanged [OF two_components_wf two_components_acyclic a b ab]
  from inst [THEN conjunct1]
  have 1: "\<exists>S'. connect two_components ''B'' ''A'' = Return (MouseUp [cycle_alert] False) S' \<and>
      map_option incoming_connections (map_of S' ''A'') = Some [] \<and>
      map_option incoming_connections (map_of S' ''B'') = Some [''A'']"
    unfolding ia ib by blast
  from inst [THEN conjunct2, rule_format, OF will]
  have 2: "forget_outgoing two_components_checked = forget_outgoing two_components" .
  from two_components_wf two_components_acyclic a b ab 1 2 show ?thesis by blast
qed

text \<open>
  The counterexample to the check being free of effects: step \<open>B\<close> has no
  \<^verbatim>\<open>outgoing_connections\<close> before the call, and after it lists \<open>A\<close>, the end of the
  connection that was refused.
\<close>

theorem willCreateCycle_side_effect_counterexample:
  "willCreateCycle two_components ''B'' ''A'' = Return True two_components_checked \<and>
   map_option outgoing_connections (map_of two_components ''B'') = Some None \<and>
   map_option outgoing_connections (map_of two_components_checked ''B'') = Some (Some [''A'']) \<and>
   two_components_checked \<noteq> two_components"
  by (simp add: eval_defs two_components_def two_components_checked_def example_step_def)

text \<open>
  C4 (no self-loop): on a well-formed graph, connecting a step to itself always fails, with
  the cycle alert, or with the alert for an existing connection when the step already
  lists itself; its \<^verbatim>\<open>incoming_connections\<close> are as before.
\<close>

theorem connect_self_fails:
  assumes "wf_graph S"
    and "map_of S X = Some st"
  shows "\<exists>r S'. connect S X X = Return r S' \<and> \<not> connected r \<and>
           (alerts r = [cycle_alert] \<or> alerts r = [duplicate_alert]) \<and>
           forget_outgoing S' = forget_outgoing S \<and>
           map_option incoming_connections (map_of S' X) = Some (incoming_connections st)"
proof (cases "X \<in> set (incoming_connections st)")
  case True
  with assms(2) have "connect S X X = Return (MouseUp [duplicate_alert] False) S"
    by (simp add: connect_def mouseup_newConnection_def indexOf_None_iff)
  with assms(2) show ?thesis by simp
next
  case False
  from willCreateCycle_total [OF wf_graph_refs [OF assms(1)], of X X] lookup_key [OF assms(2)]
  obtain b S' where will: "willCreateCycle S X X = Return b S'"
    by blast
  have "\<not> acyclic (insert (X, X) (incoming_rel S))"
    by (auto simp: acyclic_def)
  with willCreateCycle_Return [OF will] have b: "b" and f: "forget_outgoing S' = forget_outgoing S"
    by simp_all
  have "connect S X X = Return (MouseUp [cycle_alert] False) S'"
    using assms(2) False will b
    by (simp add: connect_def mouseup_newConnection_def indexOf_None_iff)
  with f forget_outgoing_incoming [OF f, of X] assms(2) show ?thesis by simp
qed

theorem connect_self_fails_witness:
  "wf_graph two_components \<and>
   map_of two_components ''A'' = Some (example_step ''A'' ''a.py'' []) \<and>
   (\<exists>r S'. connect two_components ''A'' ''A'' = Return r S' \<and> \<not> connected r \<and>
      map_option incoming_connections (map_of S' ''A'') = Some [])"
proof -
  have a: "map_of two_components ''A'' = Some (example_step ''A'' ''a.py'' [])"
    by (simp add: two_components_def)
  have ia: "incoming_connections (example_step ''A'' ''a.py'' []) = []"
    by (simp add: example_step_def)
  from connect_self_fails [OF two_components_wf a]
  have "\<exists>r S'. connect two_components ''A'' ''A'' = Return r S' \<and> \<not> connected r \<and>
      map_option incoming_connections (map_of S' ''A'') = Some []"
    unfolding ia by blast
  with two_components_wf a show ?thesis by blast
qed

text \<open>
  C5: when the source is already among the \<^verbatim>\<open>incoming_connections\<close> of the target,
  connecting them raises the alert that the steps are already connected and changes
  nothing, so the source is not listed a second time; \<^verbatim>\<open>makeConnection\<close> on its own
  leaves the steps unchanged as well.
\<close>

theorem connect_duplicate_rejected:
  assumes "map_of S targetUuid = Some st"
    and "sourceUuid \<in> set (incoming_connections st)"
  shows "connect S sourceUuid targetUuid = Return (MouseUp [duplicate_alert] False) S \<and>
         makeConnection S sourceUuid targetUuid = Return () S"
  using assms
  by (simp add: connect_def mouseup_newConnection_def makeConnection_def indexOf_None_iff)

theorem connect_duplicate_rejected_witness:
  "map_of chain_ABC ''B'' = Some (example_step ''B'' ''b.py'' [''A'']) \<and>
   ''A'' \<in> set (incoming_connections (example_step ''B'' ''b.py'' [''A''])) \<and>
   connect chain_ABC ''A'' ''B'' = Return (MouseUp [duplicate_alert] False) chain_ABC"
proof -
  have h1: "map_of chain_ABC ''B'' = Some (example_step ''B'' ''b.py'' [''A''])"
    by (simp add: chain_ABC_def)
  have h2: "''A'' \<in> set (incoming_connections (example_step ''B'' ''b.py'' [''A'']))"
    by (simp add: example_step_def)
  from connect_duplicate_rejected [OF h1 h2] h1 h2 show ?thesis by simp
qed



text \<open>
  C7: \<^verbatim>\<open>deleteStep(u)\<close> for a uuid that is not a step is no no-op and has no check of
  its own: it always throws a \<^verbatim>\<open>TypeError\<close>. No step is added or removed, and every
  step is as before or has lost its first \<open>u\<close>. The steps and the wrappers are unchanged
  when no step lists \<open>u\<close>, and the steps are changed when one does.
\<close>

theorem deleteStep_missing:
  assumes "distinct (map fst S)"
    and "u \<notin> set (map fst S)"
  shows "\<exists>S' connections'. deleteStep S connections u = (Throw TypeError S', connections') \<and>
           map fst S' = map fst S \<and>
           (\<forall>key. map_of S' key = map_of S key \<or>
              map_of S' key = map_option (strip_connection u) (map_of S key)) \<and>
           (if unreferenced S u then S' = S \<and> connections' = connections else S' \<noteq> S)"
proof -
  from cascade_loop_result [OF assms(1), of u S connections] obtain r S' C' where
    run: "cascade_loop u (map fst S) S connections = (r, C')"
    and r: "r = Return () S' \<or> r = Throw TypeError S'"
    and k: "map fst S' = map fst S"
    and l: "\<forall>key. map_of S' key = map_of S key \<or>
          (key \<in> set (map fst S) \<and> map_of S' key = map_option (strip_connection u) (map_of S key))"
    by blast
  from k assms(2) have "map_of S' u = None"
    by (metis map_of_eq_None_iff list.set_map)
  with run r have del: "deleteStep S connections u = (Throw TypeError S', C')"
    by (auto simp: deleteStep_def)
  have 3: "\<forall>key. map_of S' key = map_of S key \<or>
      map_of S' key = map_option (strip_connection u) (map_of S key)"
    using l by blast
  have 4: "if unreferenced S u then S' = S \<and> C' = connections else S' \<noteq> S"
  proof (cases "unreferenced S u")
    case True
    then have "\<forall>k st. map_of S k = Some st \<longrightarrow> u \<notin> set (incoming_connections st)"
      by (auto simp: unreferenced_def dest: map_of_SomeD)
    from cascade_loop_unreferenced [OF _ this, of "map fst S" connections] run r True
    show ?thesis by auto
  next
    case False
    then obtain key st where in_S: "(key, st) \<in> set S" and u: "u \<in> set (incoming_connections st)"
      by (auto simp: unreferenced_def)
    from in_S have key: "key \<in> set (map fst S)"
      by (simp add: rev_image_eqI)
    have "map_of S key = Some st"
      by (rule map_of_is_SomeI [OF assms(1) in_S])
    with key u have
      "\<exists>k \<in> set (map fst S). \<exists>st. map_of S k = Some st \<and> u \<in> set (incoming_connections st)"
      by blast
    from cascade_loop_changed [OF assms(1) _ this run r] obtain k st' where
      "map_of S k = Some st'" "u \<in> set (incoming_connections st')"
      "map_of S' k = Some (strip_connection u st')"
      by auto
    with strip_connection_changes [of u st'] have "S' \<noteq> S" by auto
    with False show ?thesis by simp
  qed
  from del k 3 4 show ?thesis by blast
qed

theorem deleteStep_missing_witness:
  "distinct (map fst chain_ABC) \<and> ''U'' \<notin> set (map fst chain_ABC) \<and>
   unreferenced chain_ABC ''U'' \<and>
   deleteStep chain_ABC chain_ABC_connections ''U'' = (Throw TypeError chain_ABC, chain_ABC_connections)"
proof -
  have h1: "distinct (map fst chain_ABC)"
    by (simp add: chain_ABC_def)
  have h2: "''U'' \<notin> set (map fst chain_ABC)"
    by (simp add: chain_ABC_def)
  have h3: "unreferenced chain_ABC ''U''"
    by (simp add: unreferenced_def chain_ABC_def example_step_def)
  from deleteStep_missing [OF h1 h2, of chain_ABC_connections] h3
  have "deleteStep chain_ABC chain_ABC_connections ''U'' =
      (Throw TypeError chain_ABC, chain_ABC_connections)"
    by auto
  with h1 h2 h3 show ?thesis by simp
qed

text \<open>
  The counterexample to the graph being left as it is: \<open>A\<close> and \<open>B\<close> list \<open>U\<close>, which
  is no step and has no wrappers. \<^verbatim>\<open>deleteStep(U)\<close> throws at \<open>A\<close>: \<open>A\<close> has lost the
  connection, \<open>B\<close> still has it, and the wrapper of the connection from \<open>A\<close> to \<open>B\<close>
  is gone from \<^verbatim>\<open>this.connections\<close>.
\<close>

theorem deleteStep_missing_counterexample:
  "''U'' \<notin> set (map fst dangling_U) \<and>
   deleteStep dangling_U dangling_U_connections ''U'' =
     (Throw TypeError
        [(''A'', example_step ''A'' ''a.py'' []),
         (''B'', example_step ''B'' ''b.py'' [''U'', ''A''])], []) \<and>
   [(''A'', example_step ''A'' ''a.py'' []),
    (''B'', example_step ''B'' ''b.py'' [''U'', ''A''])] \<noteq> dangling_U"
  by (simp add: dangling_U_def dangling_U_connections_def deleteStep_def splice1_def
      splice_indexOf_def example_step_def)

text \<open>
  C8: when two steps of the document share a notebook, \<^verbatim>\<open>validatePipelineJSON\<close> returns
  \<^verbatim>\<open>valid: false\<close> with one error, the message with the titles and the uuids of the
  first notebook step of the document that shares its file, and of the first step of the
  document that it shares the file with. Otherwise, as for two script steps on one file,
  it returns \<^verbatim>\<open>valid: true\<close> and no error. There is never more than one error.
\<close>

theorem validate_notebook_conflict:
  "(if \<exists>st other. shares_notebook ext (pj_steps doc) st other
    then \<exists>pre key st post pre' key' other post'.
           pj_steps doc = pre @ (key, st) # post \<and>
           (\<forall>p \<in> snd ` set pre. \<forall>q. \<not> shares_notebook ext (pj_steps doc) p q) \<and>
           pj_steps doc = pre' @ (key', other) # post' \<and>
           (\<forall>p \<in> snd ` set pre'. uuid st = uuid p \<or> file_path p \<noteq> file_path st) \<and>
           shares_notebook ext (pj_steps doc) st other \<and>
           validatePipelineJSON ext doc =
             \<lparr>valid = False,
              errors =
                [''Pipeline step '' @ [CHR 0x22] @ title st @ [CHR 0x22] @ '' ('' @ uuid st @
                 '') has the same Notebook assigned as pipeline step '' @ [CHR 0x22] @
                 title other @ [CHR 0x22] @ '' ('' @ uuid other @
                 ''). Assigning the same Notebook file to multiple steps is not supported. '' @
                 ''Please convert to a script to re-use file across pipeline steps.'']\<rparr>
    else validatePipelineJSON ext doc = \<lparr>valid = True, errors = []\<rparr>) \<and>
   length (errors (validatePipelineJSON ext doc)) \<le> 1"
proof -
  let ?S = "pj_steps doc"
  from outerLoop_first [of ext ?S ?S]
  consider
    (none) "validatePipelineJSON ext doc = \<lparr>valid = True, errors = []\<rparr>"
      "\<forall>st \<in> snd ` set ?S. \<forall>other. \<not> shares_notebook ext ?S st other"
  | (found) pre key st post other where "?S = pre @ (key, st) # post"
      "\<forall>p \<in> snd ` set pre. \<forall>q. \<not> shares_notebook ext ?S p q"
      "ext (file_path st) = ''ipynb''" "otherStep_loop st ?S = Some other"
      "validatePipelineJSON ext doc = \<lparr>valid = False, errors = [notebook_error st other]\<rparr>"
    unfolding validatePipelineJSON_def by blast
  then show ?thesis
  proof cases
    case none
    from none(2) have "\<not> (\<exists>st other. shares_notebook ext ?S st other)"
      by (auto simp: shares_notebook_def)
    with none(1) show ?thesis by simp
  next
    case found
    from otherStep_loop_first [OF found(4)] obtain pre' key' post' where
      split: "?S = pre' @ (key', other) # post'"
      and first: "\<forall>p \<in> snd ` set pre'. uuid st = uuid p \<or> file_path p \<noteq> file_path st"
      and other: "uuid st \<noteq> uuid other" "file_path other = file_path st"
      by blast
    have "st \<in> snd ` set ?S"
      by (subst found(1)) force
    moreover have "other \<in> snd ` set ?S"
      by (subst split) force
    ultimately have sh: "shares_notebook ext ?S st other"
      using found(3) other by (simp add: shares_notebook_def)
    then have ex: "\<exists>st other. shares_notebook ext ?S st other" by blast
    have "\<exists>pre key st post pre' key' other post'.
           ?S = pre @ (key, st) # post \<and>
           (\<forall>p \<in> snd ` set pre. \<forall>q. \<not> shares_notebook ext ?S p q) \<and>
           ?S = pre' @ (key', other) # post' \<and>
           (\<forall>p \<in> snd ` set pre'. uuid st = uuid p \<or> file_path p \<noteq> file_path st) \<and>
           shares_notebook ext ?S st other \<and>
           validatePipelineJSON ext doc =
             \<lparr>valid = False,
              errors =
                [''Pipeline step '' @ [CHR 0x22] @ title st @ [CHR 0x22] @ '' ('' @ uuid st @
                 '') has the same Notebook assigned as pipeline step '' @ [CHR 0x22] @
                 title other @ [CHR 0x22] @ '' ('' @ uuid other @
                 ''). Assigning the same Notebook file to multiple steps is not supported. '' @
                 ''Please convert to a script to re-use file across pipeline steps.'']\<rparr>"
      apply (rule exI [of _ pre], rule exI [of _ key], rule exI [of _ st], rule exI [of _ post])
      apply (rule exI [of _ pre'], rule exI [of _ key'], rule exI [of _ other], rule exI [of _ post'])
      apply (intro conjI)
           apply (rule found(1))
          apply (rule found(2))
         apply (rule split)
        apply (rule first)
       apply (rule sh)
      apply (simp add: found(5) notebook_error_def)
      done
    moreover have "length (errors (validatePipelineJSON ext doc)) \<le> 1"
      by (simp add: found(5))
    ultimately show ?thesis
      unfolding if_P [OF ex] by (rule conjI)
  qed
qed

theorem validate_notebook_conflict_witness:
  "shares_notebook example_extension (pj_steps three_notebooks)
     (titled_step ''B'' ''Clean'' ''nb.ipynb'') (titled_step ''C'' ''Train'' ''nb.ipynb'') \<and>
   \<not> valid (validatePipelineJSON example_extension three_notebooks) \<and>
   length (errors (validatePipelineJSON example_extension three_notebooks)) = 1 \<and>
   errors (validatePipelineJSON example_extension three_notebooks) =
     [''Pipeline step '' @ [CHR 0x22] @ ''Clean'' @ [CHR 0x22] @
      '' (B) has the same Notebook assigned as pipeline step '' @ [CHR 0x22] @ ''Train'' @
      [CHR 0x22] @
      '' (C). Assigning the same Notebook file to multiple steps is not supported. '' @
      ''Please convert to a script to re-use file across pipeline steps.''] \<and>
   validatePipelineJSON example_extension two_scripts = \<lparr>valid = True, errors = []\<rparr>"
proof -
  have h: "shares_notebook example_extension (pj_steps three_notebooks)
     (titled_step ''B'' ''Clean'' ''nb.ipynb'') (titled_step ''C'' ''Train'' ''nb.ipynb'')"
    by (simp add: shares_notebook_def three_notebooks_def example_extension_def titled_step_def
        example_step_def)
  have n: "\<not> (\<exists>st other. shares_notebook example_extension (pj_steps two_scripts) st other)"
    by (auto simp: shares_notebook_def two_scripts_def example_extension_def example_step_def)
  from h have ex: "\<exists>st other. shares_notebook example_extension (pj_steps three_notebooks) st other"
    by blast
  from validate_notebook_conflict [of example_extension three_notebooks]
  have "\<exists>pre key st post pre' key' other post'.
           pj_steps three_notebooks = pre @ (key, st) # post \<and>
           (\<forall>p \<in> snd ` set pre. \<forall>q. \<not> shares_notebook example_extension (pj_steps three_notebooks) p q) \<and>
           pj_steps three_notebooks = pre' @ (key', other) # post' \<and>
           (\<forall>p \<in> snd ` set pre'. uuid st = uuid p \<or> file_path p \<noteq> file_path st) \<and>
           shares_notebook example_extension (pj_steps three_notebooks) st other \<and>
           validatePipelineJSON example_extension three_notebooks =
             \<lparr>valid = False,
              errors =
                [''Pipeline step '' @ [CHR 0x22] @ title st @ [CHR 0x22] @ '' ('' @ uuid st @
                 '') has the same Notebook assigned as pipeline step '' @ [CHR 0x22] @
                 title other @ [CHR 0x22] @ '' ('' @ uuid other @
                 ''). Assigning the same Notebook file to multiple steps is not supported. '' @
                 ''Please convert to a script to re-use file across pipeline steps.'']\<rparr>"
    unfolding if_P [OF ex] by (rule conjunct1)
  then obtain e where "validatePipelineJSON example_extension three_notebooks =
      \<lparr>valid = False, errors = [e]\<rparr>"
    by blast
  then have 1: "\<not> valid (validatePipelineJSON example_extension three_notebooks) \<and>
   length (errors (validatePipelineJSON example_extension three_notebooks)) = 1"
    by simp
  have 2: "errors (validatePipelineJSON example_extension three_notebooks) =
     [''Pipeline step '' @ [CHR 0x22] @ ''Clean'' @ [CHR 0x22] @
      '' (B) has the same Notebook assigned as pipeline step '' @ [CHR 0x22] @ ''Train'' @
      [CHR 0x22] @
      '' (C). Assigning the same Notebook file to multiple steps is not supported. '' @
      ''Please convert to a script to re-use file across pipeline steps.'']"
    by (simp add: validatePipelineJSON_def three_notebooks_def example_extension_def
        titled_step_def example_step_def notebook_error_def)
  from validate_notebook_conflict [of example_extension two_scripts]
  have 3: "validatePipelineJSON example_extension two_scripts = \<lparr>valid = True, errors = []\<rparr>"
    unfolding if_not_P [OF n] by (rule conjunct1)
  from h 1 2 3 show ?thesis by simp
qed

text \<open>
  C9 (round trip): for steps stored under their own uuid in a view with a loaded document,
  \<^verbatim>\<open>encodeJSON\<close> returns a document in which no step has \<^verbatim>\<open>outgoing_connections\<close> or a
  \<^verbatim>\<open>meta_data\<close> key that starts with an underscore, and \<^verbatim>\<open>decodeJSON\<close> of it into a
  fresh view gives the same uuids in the same order and, for every step, the same fields
  and the same \<^verbatim>\<open>incoming_connections\<close>, with the runtime entries of \<^verbatim>\<open>meta_data\<close> at
  their defaults (\<^verbatim>\<open>_drag_count\<close> 0, \<^verbatim>\<open>_dragged\<close> false, no other underscore key).
\<close>

theorem encode_decode_roundtrip:
  assumes "distinct (map fst (state_steps v))"
    and "keyed_by_uuid (state_steps v)"
    and "state_pipelineJson v = Some pj"
  shows "\<exists>doc. encodeJSON v = Inr doc \<and>
           (\<forall>(key, st) \<in> set (pj_steps doc).
              outgoing_connections st = None \<and>
              (\<forall>k \<in> fst ` set (meta_data st). \<not> is_private k)) \<and>
           map fst (state_steps (decodeJSON initial_view doc)) = map fst (state_steps v) \<and>
           (\<forall>key st. map_of (state_steps v) key = Some st \<longrightarrow>
              (\<exists>st'. map_of (state_steps (decodeJSON initial_view doc)) key = Some st' \<and>
                 uuid st' = uuid st \<and> title st' = title st \<and> file_path st' = file_path st \<and>
                 incoming_connections st' = incoming_connections st \<and>
                 outgoing_connections st' = None \<and>
                 kernel st' = kernel st \<and> environment st' = environment st \<and>
                 parameters st' = parameters st \<and>
                 (\<forall>k. map_of (meta_data st') k =
                    (if k = ''_drag_count'' then Some (JNum 0)
                     else if k = ''_dragged'' then Some (JBool False)
                     else if is_private k then None
                     else map_of (meta_data st) k))))"
proof -
  let ?S = "state_steps v"
  let ?doc = "pj\<lparr>pj_steps := map (\<lambda>(key, st). (key, encode_step st)) ?S\<rparr>"
  let ?S' = "map (\<lambda>(key, st). (key, init_runtime (encode_step st))) ?S"
  have enc: "encodeJSON v = Inr ?doc"
    using assms encode_steps_keyed [of ?S "[]"] by (simp add: encodeJSON_def)
  have 1: "\<forall>(key, st) \<in> set (pj_steps ?doc).
      outgoing_connections st = None \<and> (\<forall>k \<in> fst ` set (meta_data st). \<not> is_private k)"
    by (auto simp: encode_step_def remove_private_filter split: option.splits)
  have dec: "state_steps (decodeJSON initial_view ?doc) = ?S'"
    using assms(1)
      decode_steps_fresh [of "map (\<lambda>(key, st). (key, encode_step st)) ?S" "[]"]
    by (simp add: decodeJSON_def initial_view_def map_fst_map_entries comp_def case_prod_beta)
  have 2: "map fst ?S' = map fst ?S"
    by (rule map_fst_map_entries)
  have 3: "\<exists>st'. map_of ?S' key = Some st' \<and>
                 uuid st' = uuid st \<and> title st' = title st \<and> file_path st' = file_path st \<and>
                 incoming_connections st' = incoming_connections st \<and>
                 outgoing_connections st' = None \<and>
                 kernel st' = kernel st \<and> environment st' = environment st \<and>
                 parameters st' = parameters st \<and>
                 (\<forall>k. map_of (meta_data st') k =
                    (if k = ''_drag_count'' then Some (JNum 0)
                     else if k = ''_dragged'' then Some (JBool False)
                     else if is_private k then None
                     else map_of (meta_data st) k))"
    if "map_of ?S key = Some st" for key st
    using that
    by (simp add: map_of_map_entries init_runtime_def encode_step_def update_conv'
        map_of_remove_private split: option.splits)
  from enc 1 dec 2 3 show ?thesis by (intro exI [of _ ?doc]) simp
qed

theorem encode_decode_roundtrip_witness:
  "distinct (map fst (state_steps dragged_view)) \<and> keyed_by_uuid (state_steps dragged_view) \<and>
   (\<exists>doc st'. encodeJSON dragged_view = Inr doc \<and>
      map fst (state_steps (decodeJSON initial_view doc)) = [''A'', ''B''] \<and>
      map_of (state_steps (decodeJSON initial_view doc)) ''A'' = Some st' \<and>
      outgoing_connections st' = None \<and>
      map_of (meta_data st') ''_dragged'' = Some (JBool False) \<and>
      map_of (meta_data st') ''_drag_count'' = Some (JNum 0) \<and>
      map_of (meta_data st') ''position'' = Some (JArr [JNum 3, JNum 4]))"
proof -
  have h1: "distinct (map fst (state_steps dragged_view))"
    by (simp add: dragged_view_def)
  have h2: "keyed_by_uuid (state_steps dragged_view)"
    by (simp add: dragged_view_def keyed_by_uuid_def example_step_def)
  have h3: "state_pipelineJson dragged_view =
      Some \<lparr>pj_steps = [], pj_properties = [(''name'', JStr ''demo'')]\<rparr>"
    by (simp add: dragged_view_def)
  define stA where "stA = (example_step ''A'' ''a.py'' [])
                  \<lparr>meta_data := [(''position'', JArr [JNum 3, JNum 4]), (''_dragged'', JBool True),
                                 (''_drag_count'', JNum 2), (''hidden'', JBool False)],
                   outgoing_connections := Some [''B'']\<rparr>"
  have a: "map_of (state_steps dragged_view) ''A'' = Some stA"
    by (simp add: dragged_view_def stA_def)
  have pos: "map_of (meta_data stA) ''position'' = Some (JArr [JNum 3, JNum 4])"
    by (simp add: stA_def)
  have keys: "map fst (state_steps dragged_view) = [''A'', ''B'']"
    by (simp add: dragged_view_def)
  have np: "\<not> is_private ''position''"
    by (simp add: is_private_def)
  note rt = encode_decode_roundtrip [OF h1 h2 h3]
  show ?thesis
  proof (rule exE [OF rt], goal_cases)
    case (1 doc)
    note enc = 1 [THEN conjunct1]
    note k = 1 [THEN conjunct2, THEN conjunct2, THEN conjunct1]
    note all = 1 [THEN conjunct2, THEN conjunct2, THEN conjunct2, rule_format, OF a]
    show ?case
    proof (rule exE [OF all], goal_cases)
      case (1 st')
      note st' = 1 [THEN conjunct1]
      note out = 1 [THEN conjunct2, THEN conjunct2, THEN conjunct2, THEN conjunct2,
          THEN conjunct2, THEN conjunct1]
      note md = 1 [THEN conjunct2, THEN conjunct2, THEN conjunct2, THEN conjunct2,
          THEN conjunct2, THEN conjunct2, THEN conjunct2, THEN conjunct2, THEN conjunct2,
          rule_format]
      have m1: "map_of (meta_data st') ''_dragged'' = Some (JBool False)"
        using md [of "''_dragged''"] by simp
      have m2: "map_of (meta_data st') ''_drag_count'' = Some (JNum 0)"
        using md [of "''_drag_count''"] by simp
      have m3: "map_of (meta_data st') ''position'' = Some (JArr [JNum 3, JNum 4])"
        using md [of "''position''"] np pos by simp
      from enc k keys st' out m1 m2 m3 h1 h2 show ?case
        by (intro conjI exI [of _ doc] exI [of _ st']) simp_all
    qed
  qed
qed

text \<open>
  C10 (termination): the search is a total function, its recursion justified by the white
  set, which every call of \<^verbatim>\<open>dfsWithSets\<close> makes smaller. On a well-formed graph the
  depth of the recursion is at most the number of calls of \<^verbatim>\<open>dfsWithSets\<close>, which is
  at most the number of steps, and for existing steps the check returns.
\<close>

theorem cycle_check_terminates:
  assumes "wf_graph S"
  shows "willCreateCycle_depth S startNodeUUID endNodeUUID
           \<le> willCreateCycle_calls S startNodeUUID endNodeUUID \<and>
         willCreateCycle_calls S startNodeUUID endNodeUUID \<le> length S \<and>
         (startNodeUUID \<in> set (map fst S) \<and> endNodeUUID \<in> set (map fst S) \<longrightarrow>
            (\<exists>cycles S'. willCreateCycle S startNodeUUID endNodeUUID = Return cycles S'))"
  using willCreateCycle_total [OF wf_graph_refs [OF assms], of startNodeUUID endNodeUUID]
    willCreateCycle_calls_bound [of S startNodeUUID endNodeUUID]
  by simp

theorem cycle_check_terminates_witness:
  "wf_graph two_components \<and>
   (\<exists>cycles S'. willCreateCycle two_components ''B'' ''A'' = Return cycles S') \<and>
   willCreateCycle_depth two_components ''B'' ''A'' \<le> 3 \<and>
   willCreateCycle_calls two_components ''B'' ''A'' \<le> 3"
proof -
  have h2: "''B'' \<in> set (map fst two_components)" and h3: "''A'' \<in> set (map fst two_components)"
    by (simp_all add: two_components_def)
  have "length two_components = 3"
    by (simp add: two_components_def)
  with cycle_check_terminates [OF two_components_wf, of "''B''" "''A''"] two_components_wf h2 h3
  show ?thesis by simp
qed

end
